theory Spec2Isabelle
  imports Main
begin

section \<open>The tables of \<^verbatim>\<open>gtp_connection.py\<close>\<close>

text \<open>
  Moves are points, that is indices into the board array (Python ints). A result of the
  solver is the pair \<^verbatim>\<open>(solved, move)\<close> where \<^verbatim>\<open>move\<close> may be \<^verbatim>\<open>None\<close>.
\<close>

type_synonym result = "bool \<times> int option"

text \<open>
  \<^verbatim>\<open>class TranspositionTable\<close>: a dict from the board's code to \<^verbatim>\<open>(score, move)\<close>.
  \<^verbatim>\<open>store\<close> is \<^verbatim>\<open>self.table[code] = (score, move)\<close>, \<^verbatim>\<open>lookup\<close> is \<^verbatim>\<open>self.table.get(code)\<close>.
\<close>

type_synonym 'c transposition_table = "'c \<rightharpoonup> result"

definition tt_store :: "'c transposition_table \<Rightarrow> 'c \<Rightarrow> bool \<Rightarrow> int option \<Rightarrow> 'c transposition_table" where
  "tt_store table c score move = table(c \<mapsto> (score, move))"

definition tt_lookup :: "'c transposition_table \<Rightarrow> 'c \<Rightarrow> result option" where
  "tt_lookup table c = table c"

text \<open>
  \<^verbatim>\<open>class HistoryHeuristicTable\<close>: a dict from a move to an int.
  \<^verbatim>\<open>update\<close> adds \<^verbatim>\<open>depth**2\<close> to the entry, or creates it with \<^verbatim>\<open>depth**2\<close>;
  \<^verbatim>\<open>lookup\<close> is \<^verbatim>\<open>self.table.get(code) or 0\<close>: a missing entry and a stored \<^verbatim>\<open>0\<close>
  both give \<^verbatim>\<open>0\<close>.
\<close>

type_synonym history_table = "int \<rightharpoonup> int"

definition hh_update :: "history_table \<Rightarrow> int \<Rightarrow> int \<Rightarrow> history_table" where
  "hh_update table move depth =
     (case table move of
        Some v \<Rightarrow> table(move \<mapsto> v + depth ^ 2)
      | None \<Rightarrow> table(move \<mapsto> depth ^ 2))"

definition hh_lookup :: "history_table \<Rightarrow> int \<Rightarrow> int" where
  "hh_lookup table c =
     (case table c of
        None \<Rightarrow> 0
      | Some v \<Rightarrow> (if v = 0 then 0 else v))"

section \<open>The board, a collaborator\<close>

text \<open>
  The board class and \<^verbatim>\<open>board_util\<close> are imported by the module and are not part of it.
  The solver is therefore modelled over a record of the board operations it calls; a board
  is a value of type \<open>'b\<close>, and an operation that mutates the board returns the new one.
  \<^verbatim>\<open>play_move\<close> returns the flag the Python method returns together with the board
  it leaves behind.
\<close>

datatype color = EMPTY | BLACK | WHITE | BORDER

record ('b, 'c) board_ops =
  code :: "'b \<Rightarrow> 'c"
  current_player :: "'b \<Rightarrow> color"
  generate_legal_moves :: "'b \<Rightarrow> color \<Rightarrow> int list"
  play_move :: "'b \<Rightarrow> int \<Rightarrow> color \<Rightarrow> bool \<times> 'b"
  undoMove :: "'b \<Rightarrow> int \<Rightarrow> 'b"
  is_legal :: "'b \<Rightarrow> int \<Rightarrow> color \<Rightarrow> bool"
  copy :: "'b \<Rightarrow> 'b"
  count_steps :: "'b \<Rightarrow> int"
  board_size :: "'b \<Rightarrow> int"
  MAXSIZE :: int
  PASS :: "int option"

section \<open>The solver\<close>

text \<open>
  \<^verbatim>\<open>store_result(tt, board, result, move)\<close> stores under \<^verbatim>\<open>board.code()\<close> and returns
  \<^verbatim>\<open>(result, move)\<close>.
\<close>

definition store_result ::
  "('b, 'c) board_ops \<Rightarrow> 'c transposition_table \<Rightarrow> 'b \<Rightarrow> bool \<Rightarrow> int option
     \<Rightarrow> result \<times> 'c transposition_table" where
  "store_result ops tt board res move = ((res, move), tt_store tt (code ops board) res move)"

text \<open>
  \<^verbatim>\<open>solve\<close> arms \<^verbatim>\<open>signal.alarm\<close>, and the handler raises \<^verbatim>\<open>TimeoutError\<close> inside
  whatever the interpreter is running. The pending alarm is part of the state: \<open>None\<close>
  when no alarm is armed (as in \<^verbatim>\<open>genmove\<close>), \<open>Some n\<close> when the signal arrives after
  \<open>n\<close> more interruption points have been passed. The interruption points of the model
  are the points between two consecutive operations on the board and the tables:
  on entry of \<^verbatim>\<open>negamax_boolean\<close> (after the caller's \<^verbatim>\<open>play_move\<close>), after the recursive
  call and before \<^verbatim>\<open>undoMove\<close>, after \<^verbatim>\<open>undoMove\<close>, and between \<^verbatim>\<open>history_table.update\<close>
  and \<^verbatim>\<open>store_result\<close>. An outcome is a normal return, with the state it leaves, or
  the exception, with the state at the moment it is raised (nothing in
  \<^verbatim>\<open>negamax_boolean\<close> catches it, so nothing runs after it).
\<close>

type_synonym alarm = "nat option"

definition fired :: "alarm \<Rightarrow> bool" where
  "fired a = (a = Some 0)"

definition tick :: "alarm \<Rightarrow> alarm" where
  "tick a = map_option (\<lambda>n. n - 1) a"

datatype ('b, 'c) outcome =
    Return result 'b "'c transposition_table" history_table alarm
  | TimeoutError 'b "'c transposition_table" history_table

text \<open>
  \<^verbatim>\<open>negamax_boolean(board, tt, history_table, depth)\<close>. The recursion of the Python has no
  bound of its own, so the model takes fuel, the number of nested calls it may make, and
  is \<open>None\<close> when that does not suffice. \<open>negamax_loop\<close> is the \<^verbatim>\<open>for move in moves\<close>
  loop with the statement after it. The flag returned by \<^verbatim>\<open>play_move\<close> is discarded by
  the source, and so it is here.
\<close>

fun negamax_boolean ::
  "('b, 'c) board_ops \<Rightarrow> nat \<Rightarrow> 'b \<Rightarrow> 'c transposition_table \<Rightarrow> history_table \<Rightarrow> int
     \<Rightarrow> alarm \<Rightarrow> ('b, 'c) outcome option"
and negamax_loop ::
  "('b, 'c) board_ops \<Rightarrow> nat \<Rightarrow> int list \<Rightarrow> 'b \<Rightarrow> 'c transposition_table \<Rightarrow> history_table
     \<Rightarrow> int \<Rightarrow> alarm \<Rightarrow> ('b, 'c) outcome option"
where
  "negamax_boolean ops 0 board tt ht depth alarm = None"
| "negamax_boolean ops (Suc fuel) board tt ht depth alarm =
     (if fired alarm then Some (TimeoutError board tt ht)
      else
        (case tt_lookup tt (code ops board) of
           Some res \<Rightarrow> Some (Return res board tt ht (tick alarm))
         | None \<Rightarrow>
             (let moves = generate_legal_moves ops board (current_player ops board);
                  moves = sort_key (\<lambda>x. - hh_lookup ht x) moves
              in negamax_loop ops fuel moves board tt ht depth (tick alarm))))"
| "negamax_loop ops fuel [] board tt ht depth alarm =
     (case store_result ops tt board False None of
        (res, tt') \<Rightarrow> Some (Return res board tt' ht alarm))"
| "negamax_loop ops fuel (move # moves) board tt ht depth alarm =
     (case negamax_boolean ops fuel
             (snd (play_move ops board move (current_player ops board))) tt ht (depth + 1) alarm of
        None \<Rightarrow> None
      | Some (TimeoutError board' tt' ht') \<Rightarrow> Some (TimeoutError board' tt' ht')
      | Some (Return res board1 tt1 ht1 alarm1) \<Rightarrow>
          (if fired alarm1 then Some (TimeoutError board1 tt1 ht1)
           else
             (let success = (\<not> fst res);
                  board2 = undoMove ops board1 move;
                  alarm2 = tick alarm1
              in if fired alarm2 then Some (TimeoutError board2 tt1 ht1)
                 else if success then
                   (let ht2 = hh_update ht1 move depth;
                        alarm3 = tick alarm2
                    in if fired alarm3 then Some (TimeoutError board2 tt1 ht2)
                       else
                         (case store_result ops tt1 board2 True (Some move) of
                            (res', tt2) \<Rightarrow> Some (Return res' board2 tt2 ht2 (tick alarm3))))
                 else negamax_loop ops fuel moves board2 tt1 ht1 depth alarm2)))"


text \<open>The parts of an outcome that persist: the board and the two tables.\<close>

fun outcome_board :: "('b, 'c) outcome \<Rightarrow> 'b" where
  "outcome_board (Return res b t h a) = b"
| "outcome_board (TimeoutError b t h) = b"

fun outcome_tt :: "('b, 'c) outcome \<Rightarrow> 'c transposition_table" where
  "outcome_tt (Return res b t h a) = t"
| "outcome_tt (TimeoutError b t h) = t"

fun outcome_ht :: "('b, 'c) outcome \<Rightarrow> history_table" where
  "outcome_ht (Return res b t h a) = h"
| "outcome_ht (TimeoutError b t h) = h"

section \<open>The commands \<^verbatim>\<open>genmove\<close> and \<^verbatim>\<open>solve\<close>\<close>

text \<open>
  The exceptions that leave a command. \<^verbatim>\<open>get_cmd\<close> re-raises them; only \<^verbatim>\<open>solve\<close>
  catches one, \<^verbatim>\<open>TimeoutError\<close>.
\<close>

datatype exn = KeyError | IndexError | ValueError | ZeroDivisionError | UncaughtTimeoutError

text \<open>
  \<^verbatim>\<open>str.lower()\<close> on the ASCII letters, \<^verbatim>\<open>str(row)\<close> for an int, and indexing of a
  string with Python's negative indices.
\<close>

definition lower :: "string \<Rightarrow> string" where
  "lower s =
     map (\<lambda>c. case map_of (zip ''ABCDEFGHIJKLMNOPQRSTUVWXYZ'' ''abcdefghijklmnopqrstuvwxyz'') c of
                 Some l \<Rightarrow> l
               | None \<Rightarrow> c) s"

fun str_nat :: "nat \<Rightarrow> string" where
  "str_nat n =
     (if n < 10 then [''0123456789'' ! n]
      else str_nat (n div 10) @ [''0123456789'' ! (n mod 10)])"

declare str_nat.simps [simp del]

definition str_int :: "int \<Rightarrow> string" where
  "str_int i = (if i < 0 then CHR ''-'' # str_nat (nat (- i)) else str_nat (nat i))"

definition py_index :: "'a list \<Rightarrow> int \<Rightarrow> exn + 'a" where
  "py_index xs i =
     (if 0 \<le> i \<and> i < int (length xs) then Inr (xs ! nat i)
      else if i < 0 \<and> - int (length xs) \<le> i then Inr (xs ! nat (int (length xs) + i))
      else Inl IndexError)"

text \<open>
  \<^verbatim>\<open>color_to_int\<close> indexes a dict literal; a key that is not in it raises \<^verbatim>\<open>KeyError\<close>.
\<close>

definition color_to_int :: "string \<Rightarrow> exn + color" where
  "color_to_int c =
     (case map_of [(''b'', BLACK), (''w'', WHITE), (''e'', EMPTY), (''BORDER'', BORDER)] c of
        Some v \<Rightarrow> Inr v
      | None \<Rightarrow> Inl KeyError)"

text \<open>
  \<^verbatim>\<open>point_to_coord\<close> returns \<^verbatim>\<open>PASS\<close> for the point \<^verbatim>\<open>PASS\<close> and \<^verbatim>\<open>divmod(point, boardsize + 1)\<close>
  otherwise; \<^verbatim>\<open>format_point\<close> raises \<^verbatim>\<open>ValueError\<close> outside \<^verbatim>\<open>0 <= row, col < MAXSIZE\<close>.
  \<^verbatim>\<open>PASS\<close> and \<^verbatim>\<open>MAXSIZE\<close> are constants of \<^verbatim>\<open>board_util\<close>, taken from the board record;
  \<open>PASS ops = None\<close> stands for a value that no point equals.
\<close>

datatype coord = PASS_coord | RowCol int int

definition point_to_coord :: "('b, 'c) board_ops \<Rightarrow> int \<Rightarrow> int \<Rightarrow> exn + coord" where
  "point_to_coord ops point boardsize =
     (if Some point = PASS ops then Inr PASS_coord
      else
        (let NS = boardsize + 1
         in if NS = 0 then Inl ZeroDivisionError
            else Inr (RowCol (point div NS) (point mod NS))))"

definition format_point :: "('b, 'c) board_ops \<Rightarrow> coord \<Rightarrow> exn + string" where
  "format_point ops move =
     (case move of
        PASS_coord \<Rightarrow> Inr ''pass''
      | RowCol row col \<Rightarrow>
          (if \<not> (0 \<le> row \<and> row < MAXSIZE ops) \<or> \<not> (0 \<le> col \<and> col < MAXSIZE ops)
           then Inl ValueError
           else
             (case py_index ''ABCDEFGHJKLMNOPQRSTUVWXYZ'' (col - 1) of
                Inl e \<Rightarrow> Inl e
              | Inr c \<Rightarrow> Inr (c # str_int row))))"

text \<open>\<^verbatim>\<open>format_point(point_to_coord(move, self.board.size))\<close>, as both commands call it.\<close>

definition move_as_string :: "('b, 'c) board_ops \<Rightarrow> int \<Rightarrow> int \<Rightarrow> exn + string" where
  "move_as_string ops move boardsize =
     (case point_to_coord ops move boardsize of
        Inl e \<Rightarrow> Inl e
      | Inr c \<Rightarrow> format_point ops c)"

text \<open>
  The fields of \<^verbatim>\<open>GtpConnection\<close> that the two commands use. \<^verbatim>\<open>self.tt\<close> and
  \<^verbatim>\<open>self.history_heuristic\<close> are dicts from a board size to a table. A command ends with
  a response (the argument of \<^verbatim>\<open>self.respond\<close>) or with an exception, and leaves a
  connection behind in both cases.
\<close>

record ('b, 'c) gtp_connection =
  self_board :: 'b
  self_timelimit :: int
  self_tt :: "int \<rightharpoonup> 'c transposition_table"
  self_history_heuristic :: "int \<rightharpoonup> history_table"

datatype ('b, 'c) reply =
    Responded string "('b, 'c) gtp_connection"
  | Raised exn "('b, 'c) gtp_connection"

text \<open>
  The solver mutates the board and the two table objects it is given; the connection
  after a call holds the board as the call left it and the tables under the size they
  were fetched with.
\<close>

definition after_search ::
  "('b, 'c) gtp_connection \<Rightarrow> int \<Rightarrow> 'b \<Rightarrow> 'c transposition_table \<Rightarrow> history_table
     \<Rightarrow> ('b, 'c) gtp_connection" where
  "after_search self sz b t h =
     self\<lparr>self_board := b, self_tt := (self_tt self)(sz \<mapsto> t),
          self_history_heuristic := (self_history_heuristic self)(sz \<mapsto> h)\<rparr>"

text \<open>
  \<^verbatim>\<open>genmove_cmd(self, args)\<close>. No alarm is armed here, and the solver is called with depth 0.
  The move is formatted before its legality for the requested colour is tested.
\<close>

definition genmove_cmd ::
  "('b, 'c) board_ops \<Rightarrow> nat \<Rightarrow> ('b, 'c) gtp_connection \<Rightarrow> string list
     \<Rightarrow> ('b, 'c) reply option" where
  "genmove_cmd ops fuel self args =
     (case args of
        [] \<Rightarrow> Some (Raised IndexError self)
      | arg0 # rest \<Rightarrow>
          (case color_to_int (lower arg0) of
             Inl e \<Rightarrow> Some (Raised e self)
           | Inr color \<Rightarrow>
               (let sz = board_size ops (self_board self)
                in case self_tt self sz of
                     None \<Rightarrow> Some (Raised KeyError self)
                   | Some t \<Rightarrow>
                       (case self_history_heuristic self sz of
                          None \<Rightarrow> Some (Raised KeyError self)
                        | Some h \<Rightarrow>
                            (case negamax_boolean ops fuel (self_board self) t h 0 None of
                               None \<Rightarrow> None
                             | Some (TimeoutError b1 t1 h1) \<Rightarrow>
                                 Some (Raised UncaughtTimeoutError (after_search self sz b1 t1 h1))
                             | Some (Return res b1 t1 h1 a1) \<Rightarrow>
                                 (let self1 = after_search self sz b1 t1 h1
                                  in case snd res of
                                       None \<Rightarrow> Some (Responded ''resign'' self1)
                                     | Some move \<Rightarrow>
                                         (case move_as_string ops move (board_size ops b1) of
                                            Inl e \<Rightarrow> Some (Raised e self1)
                                          | Inr s \<Rightarrow>
                                              (if is_legal ops b1 move color
                                               then Some (Responded (lower s)
                                                      (self1\<lparr>self_board :=
                                                          snd (play_move ops b1 move color)\<rparr>))
                                               else Some (Responded ''resign'' self1)))))))))"

text \<open>
  \<^verbatim>\<open>solve(self, args)\<close>. \<open>n\<close> is the number of interruption points that the solver passes
  before \<^verbatim>\<open>SIGALRM\<close> arrives; how \<^verbatim>\<open>self.timelimit\<close> seconds translate into \<open>n\<close> is not
  modelled. The last interruption point lies between the return of the solver and
  \<^verbatim>\<open>signal.alarm(0)\<close>, still inside the \<^verbatim>\<open>try\<close>. On \<^verbatim>\<open>TimeoutError\<close> the handler responds
  \<^verbatim>\<open>unknown\<close> and rebinds \<^verbatim>\<open>self.board\<close> to the copy made before the search; the tables
  keep what the search stored.
\<close>

definition solve ::
  "('b, 'c) board_ops \<Rightarrow> nat \<Rightarrow> nat \<Rightarrow> ('b, 'c) gtp_connection \<Rightarrow> string list
     \<Rightarrow> ('b, 'c) reply option" where
  "solve ops fuel n self args =
     (let steps = count_steps ops (self_board self);
          board_copy = copy ops (self_board self);
          sz = board_size ops (self_board self)
      in case self_tt self sz of
           None \<Rightarrow> Some (Raised KeyError self)
         | Some t \<Rightarrow>
             (case self_history_heuristic self sz of
                None \<Rightarrow> Some (Raised KeyError self)
              | Some h \<Rightarrow>
                  (case negamax_boolean ops fuel (self_board self) t h steps (Some n) of
                     None \<Rightarrow> None
                   | Some (TimeoutError b1 t1 h1) \<Rightarrow>
                       Some (Responded ''unknown''
                               ((after_search self sz b1 t1 h1)\<lparr>self_board := board_copy\<rparr>))
                   | Some (Return res b1 t1 h1 a1) \<Rightarrow>
                       (if fired a1
                        then Some (Responded ''unknown''
                                     ((after_search self sz b1 t1 h1)\<lparr>self_board := board_copy\<rparr>))
                        else
                          (let self1 = after_search self sz b1 t1 h1
                           in case snd res of
                                Some move \<Rightarrow>
                                  (let color = (if current_player ops b1 = BLACK then ''b'' else ''w'')
                                   in case move_as_string ops move (board_size ops b1) of
                                        Inl e \<Rightarrow> Some (Raised e self1)
                                      | Inr s \<Rightarrow> Some (Responded (color @ '' '' @ lower s) self1))
                              | None \<Rightarrow>
                                  (let color = (if current_player ops b1 = BLACK then ''w'' else ''b'')
                                   in Some (Responded color self1)))))))"

section \<open>What the claims speak of\<close>

text \<open>The legal moves of the player to move, and the board after one of them is played.\<close>

abbreviation legal :: "('b, 'c) board_ops \<Rightarrow> 'b \<Rightarrow> int list" where
  "legal ops b \<equiv> generate_legal_moves ops b (current_player ops b)"

abbreviation play :: "('b, 'c) board_ops \<Rightarrow> 'b \<Rightarrow> int \<Rightarrow> 'b" where
  "play ops b m \<equiv> snd (play_move ops b m (current_player ops b))"

abbreviation ordered_moves :: "('b, 'c) board_ops \<Rightarrow> history_table \<Rightarrow> 'b \<Rightarrow> int list" where
  "ordered_moves ops ht b \<equiv> sort_key (\<lambda>x. - hh_lookup ht x) (legal ops b)"

text \<open>
  What the solver needs of the board, on the positions \<open>valid\<close> that a game can reach:
  playing an enumerated move gives a position of the game again, \<^verbatim>\<open>undoMove\<close> takes it
  back, and the game ends (\<open>rank\<close> bounds the number of moves still to be played).
  \<open>code_inj\<close>: two positions never share a code.
\<close>

definition board_ok :: "('b, 'c) board_ops \<Rightarrow> ('b \<Rightarrow> bool) \<Rightarrow> ('b \<Rightarrow> nat) \<Rightarrow> bool" where
  "board_ok ops valid rank =
     (\<forall>b m. valid b \<and> m \<in> set (legal ops b) \<longrightarrow>
        valid (play ops b m) \<and> undoMove ops (play ops b m) m = b \<and> rank (play ops b m) < rank b)"

definition code_inj :: "('b, 'c) board_ops \<Rightarrow> ('b \<Rightarrow> bool) \<Rightarrow> bool" where
  "code_inj ops valid = (\<forall>b b'. valid b \<and> valid b' \<and> code ops b = code ops b' \<longrightarrow> b = b')"

text \<open>
  A forced win for the player to move: there is a move after which every reply of the
  opponent leads to a forced win again. A player who cannot move has no such move.
\<close>

inductive wins :: "('b, 'c) board_ops \<Rightarrow> 'b \<Rightarrow> bool" for ops :: "('b, 'c) board_ops" where
  wins_by: "m \<in> set (legal ops b) \<Longrightarrow>
     (\<forall>m' \<in> set (legal ops (play ops b m)). wins ops (play ops (play ops b m) m'))
     \<Longrightarrow> wins ops b"

text \<open>
  A result is right for a position when its flag is the forced win and its move, in case
  of a win, is a legal move that leaves the opponent without a forced win. A table is
  sound when every entry is right for the position it is stored under.
\<close>

definition result_ok :: "('b, 'c) board_ops \<Rightarrow> 'b \<Rightarrow> result \<Rightarrow> bool" where
  "result_ok ops b res =
     (if fst res
      then wins ops b \<and> (\<exists>m. snd res = Some m \<and> m \<in> set (legal ops b) \<and> \<not> wins ops (play ops b m))
      else \<not> wins ops b \<and> snd res = None)"

definition tt_sound :: "('b, 'c) board_ops \<Rightarrow> ('b \<Rightarrow> bool) \<Rightarrow> 'c transposition_table \<Rightarrow> bool" where
  "tt_sound ops valid tt =
     (\<forall>b res. valid b \<and> tt (code ops b) = Some res \<longrightarrow> result_ok ops b res)"

text \<open>
  One history table is below another when it has no more entries and no higher score.
\<close>

definition hist_le :: "history_table \<Rightarrow> history_table \<Rightarrow> bool" where
  "hist_le h h' = (dom h \<subseteq> dom h' \<and> (\<forall>m. hh_lookup h m \<le> hh_lookup h' m))"

text \<open>
  A timer that fires before the solver returns, or between its return and
  \<^verbatim>\<open>signal.alarm(0)\<close>: both are caught by the \<^verbatim>\<open>except TimeoutError\<close> of \<^verbatim>\<open>solve\<close>.
\<close>

fun timed_out :: "('b, 'c) outcome \<Rightarrow> bool" where
  "timed_out (TimeoutError b t h) = True"
| "timed_out (Return res b t h a) = fired a"

text \<open>The connection a command leaves behind.\<close>

fun reply_conn :: "('b, 'c) reply \<Rightarrow> ('b, 'c) gtp_connection" where
  "reply_conn (Responded r self) = self"
| "reply_conn (Raised e self) = self"

text \<open>
  What a legal play does to a board, as far as the claims about \<^verbatim>\<open>genmove\<close> need it: the
  code of the position changes, and a play of the player to move hands the turn over.
\<close>

definition legal_play_changes_code :: "('b, 'c) board_ops \<Rightarrow> ('b \<Rightarrow> bool) \<Rightarrow> bool" where
  "legal_play_changes_code ops valid =
     (\<forall>b m c. valid b \<and> is_legal ops b m c \<longrightarrow> code ops (snd (play_move ops b m c)) \<noteq> code ops b)"

definition legal_play_passes_turn :: "('b, 'c) board_ops \<Rightarrow> ('b \<Rightarrow> bool) \<Rightarrow> bool" where
  "legal_play_passes_turn ops valid =
     (\<forall>b m. valid b \<and> is_legal ops b m (current_player ops b) \<longrightarrow>
        current_player ops (snd (play_move ops b m (current_player ops b))) \<noteq> current_player ops b)"

section \<open>The runs of the solver as derivations\<close>

text \<open>
  Every result of \<open>negamax_boolean\<close> and \<open>negamax_loop\<close>, whatever the fuel, is a
  derivation of the following relation (lemmas \<open>negamax_boolean_run\<close> and
  \<open>negamax_loop_run\<close> below), one rule per way through the code. Properties of all runs
  are proved by induction over it.
\<close>

inductive negamax_run ::
  "('b, 'c) board_ops \<Rightarrow> 'b \<Rightarrow> 'c transposition_table \<Rightarrow> history_table \<Rightarrow> int \<Rightarrow> alarm
     \<Rightarrow> ('b, 'c) outcome \<Rightarrow> bool"
and loop_run ::
  "('b, 'c) board_ops \<Rightarrow> int list \<Rightarrow> 'b \<Rightarrow> 'c transposition_table \<Rightarrow> history_table \<Rightarrow> int
     \<Rightarrow> alarm \<Rightarrow> ('b, 'c) outcome \<Rightarrow> bool"
for ops :: "('b, 'c) board_ops"
where
  run_timeout: "fired a \<Longrightarrow> negamax_run ops b tt ht d a (TimeoutError b tt ht)"
| run_hit: "\<not> fired a \<Longrightarrow> tt_lookup tt (code ops b) = Some res
    \<Longrightarrow> negamax_run ops b tt ht d a (Return res b tt ht (tick a))"
| run_search: "\<not> fired a \<Longrightarrow> tt_lookup tt (code ops b) = None
    \<Longrightarrow> loop_run ops (ordered_moves ops ht b) b tt ht d (tick a) out
    \<Longrightarrow> negamax_run ops b tt ht d a out"
| loop_nil:
    "loop_run ops [] b tt ht d a (Return (False, None) b (tt_store tt (code ops b) False None) ht a)"
| loop_abort_inside:
    "negamax_run ops (play ops b m) tt ht (d + 1) a (TimeoutError b' t' h')
    \<Longrightarrow> loop_run ops (m # ms) b tt ht d a (TimeoutError b' t' h')"
| loop_abort_before_undo:
    "negamax_run ops (play ops b m) tt ht (d + 1) a (Return res b1 t1 h1 a1) \<Longrightarrow> fired a1
    \<Longrightarrow> loop_run ops (m # ms) b tt ht d a (TimeoutError b1 t1 h1)"
| loop_abort_after_undo:
    "negamax_run ops (play ops b m) tt ht (d + 1) a (Return res b1 t1 h1 a1) \<Longrightarrow> \<not> fired a1
    \<Longrightarrow> fired (tick a1)
    \<Longrightarrow> loop_run ops (m # ms) b tt ht d a (TimeoutError (undoMove ops b1 m) t1 h1)"
| loop_abort_after_update:
    "negamax_run ops (play ops b m) tt ht (d + 1) a (Return res b1 t1 h1 a1) \<Longrightarrow> \<not> fired a1
    \<Longrightarrow> \<not> fired (tick a1) \<Longrightarrow> \<not> fst res \<Longrightarrow> fired (tick (tick a1))
    \<Longrightarrow> loop_run ops (m # ms) b tt ht d a
          (TimeoutError (undoMove ops b1 m) t1 (hh_update h1 m d))"
| loop_win:
    "negamax_run ops (play ops b m) tt ht (d + 1) a (Return res b1 t1 h1 a1) \<Longrightarrow> \<not> fired a1
    \<Longrightarrow> \<not> fired (tick a1) \<Longrightarrow> \<not> fst res \<Longrightarrow> \<not> fired (tick (tick a1))
    \<Longrightarrow> loop_run ops (m # ms) b tt ht d a
          (Return (True, Some m) (undoMove ops b1 m)
             (tt_store t1 (code ops (undoMove ops b1 m)) True (Some m))
             (hh_update h1 m d) (tick (tick (tick a1))))"
| loop_continue:
    "negamax_run ops (play ops b m) tt ht (d + 1) a (Return res b1 t1 h1 a1) \<Longrightarrow> \<not> fired a1
    \<Longrightarrow> \<not> fired (tick a1) \<Longrightarrow> fst res
    \<Longrightarrow> loop_run ops ms (undoMove ops b1 m) t1 h1 d (tick a1) out
    \<Longrightarrow> loop_run ops (m # ms) b tt ht d a out"

text \<open>
  Two relations between the tables before and after a run. \<open>grows_below\<close>: the table
  keeps its entries, and every new key is the code of a position of rank at most \<open>r\<close>.
  \<open>recorded\<close>: every move whose history entry changed is the move of a new table entry
  with flag \<^verbatim>\<open>True\<close>.
\<close>

definition grows_below ::
  "('b, 'c) board_ops \<Rightarrow> ('b \<Rightarrow> bool) \<Rightarrow> ('b \<Rightarrow> nat) \<Rightarrow> nat
     \<Rightarrow> 'c transposition_table \<Rightarrow> 'c transposition_table \<Rightarrow> bool" where
  "grows_below ops valid rank r tt tt' =
     (tt \<subseteq>\<^sub>m tt' \<and>
      (\<forall>c. tt c = None \<and> tt' c \<noteq> None \<longrightarrow> (\<exists>b'. valid b' \<and> rank b' \<le> r \<and> code ops b' = c)))"

definition recorded ::
  "'c transposition_table \<Rightarrow> 'c transposition_table \<Rightarrow> history_table \<Rightarrow> history_table \<Rightarrow> bool" where
  "recorded tt tt' ht ht' =
     (\<forall>m. ht' m \<noteq> ht m \<longrightarrow> (\<exists>c. tt c = None \<and> tt' c = Some (True, Some m)))"

text \<open>
  Every move whose history entry changed is a winning move of some position of the game:
  what \<^verbatim>\<open>update\<close> is called for, whether or not the call then gets to return it.
\<close>

definition only_winning_moves ::
  "('b, 'c) board_ops \<Rightarrow> ('b \<Rightarrow> bool) \<Rightarrow> history_table \<Rightarrow> history_table \<Rightarrow> bool" where
  "only_winning_moves ops valid ht ht' =
     (\<forall>m. ht' m \<noteq> ht m \<longrightarrow>
        (\<exists>b. valid b \<and> m \<in> set (legal ops b) \<and> \<not> wins ops (play ops b m)))"

section \<open>A concrete board for instantiating the theorems\<close>

text \<open>
  The theorems below are about any board. To apply them to a concrete input they are
  instantiated with a small board of this development's own: a single row of cells, on
  which a colour may play on an empty cell that touches no stone of the other colour.
  A player without a legal move has lost, as in the game the module plays.
\<close>

record row_board =
  cells :: "color list"
  to_play :: color

fun row_opponent :: "color \<Rightarrow> color" where
  "row_opponent BLACK = WHITE"
| "row_opponent WHITE = BLACK"
| "row_opponent c = c"

definition row_point_legal :: "row_board \<Rightarrow> nat \<Rightarrow> color \<Rightarrow> bool" where
  "row_point_legal b i c =
     (i < length (cells b) \<and> cells b ! i = EMPTY \<and>
      (i = 0 \<or> cells b ! (i - 1) \<noteq> row_opponent c) \<and>
      (length (cells b) \<le> Suc i \<or> cells b ! Suc i \<noteq> row_opponent c))"

definition row_legal_moves :: "row_board \<Rightarrow> color \<Rightarrow> int list" where
  "row_legal_moves b c = map int (filter (\<lambda>i. row_point_legal b i c) [0..<length (cells b)])"

definition row_is_legal :: "row_board \<Rightarrow> int \<Rightarrow> color \<Rightarrow> bool" where
  "row_is_legal b m c = (0 \<le> m \<and> row_point_legal b (nat m) c)"

definition row_play_move :: "row_board \<Rightarrow> int \<Rightarrow> color \<Rightarrow> bool \<times> row_board" where
  "row_play_move b m c =
     (if row_is_legal b m c
      then (True, \<lparr>cells = (cells b)[nat m := c], to_play = row_opponent c\<rparr>)
      else (False, b))"

definition row_undoMove :: "row_board \<Rightarrow> int \<Rightarrow> row_board" where
  "row_undoMove b m = \<lparr>cells = (cells b)[nat m := EMPTY], to_play = row_opponent (to_play b)\<rparr>"

definition row_code :: "row_board \<Rightarrow> color list \<times> color" where
  "row_code b = (cells b, to_play b)"

definition row_count_steps :: "row_board \<Rightarrow> int" where
  "row_count_steps b = int (length (filter (\<lambda>c. c \<noteq> EMPTY) (cells b)))"

definition row_ops :: "(row_board, color list \<times> color) board_ops" where
  "row_ops =
     \<lparr>code = row_code, current_player = to_play, generate_legal_moves = row_legal_moves,
      play_move = row_play_move, undoMove = row_undoMove, is_legal = row_is_legal,
      copy = (\<lambda>b. b), count_steps = row_count_steps,
      board_size = (\<lambda>b. int (length (cells b))), MAXSIZE = 25, PASS = None\<rparr>"

definition row_empty :: "nat \<Rightarrow> row_board" where
  "row_empty n = \<lparr>cells = replicate n EMPTY, to_play = BLACK\<rparr>"

definition row_valid :: "row_board \<Rightarrow> bool" where
  "row_valid b = (to_play b = BLACK \<or> to_play b = WHITE)"

definition row_rank :: "row_board \<Rightarrow> nat" where
  "row_rank b = length (filter (\<lambda>c. c = EMPTY) (cells b))"

text \<open>
  A connection on the empty row of \<open>n\<close> cells with empty tables, and a variant of the row
  whose \<^verbatim>\<open>play_move\<close> rejects every move and leaves the board as it is.
\<close>

definition row_conn :: "nat \<Rightarrow> (row_board, color list \<times> color) gtp_connection" where
  "row_conn n =
     \<lparr>self_board = row_empty n, self_timelimit = 1,
      self_tt = [int n \<mapsto> Map.empty], self_history_heuristic = [int n \<mapsto> Map.empty]\<rparr>"

definition reject_ops :: "(row_board, color list \<times> color) board_ops" where
  "reject_ops = row_ops\<lparr>play_move := (\<lambda>b m c. (False, b))\<rparr>"

text \<open>
  The same row laid on the last row of a board of size 25, the value of \<^verbatim>\<open>MAXSIZE\<close> here:
  cell \<open>i\<close> of the row is the point \<open>651 + i\<close>, that is row 25 and column \<open>1 + i\<close> of a board
  whose points are numbered \<^verbatim>\<open>row * (size + 1) + col\<close>, as \<^verbatim>\<open>point_to_coord\<close> reads them. The
  connection has the one cell 651 left to play on.
\<close>

definition last_row_ops :: "(row_board, color list \<times> color) board_ops" where
  "last_row_ops =
     row_ops\<lparr>generate_legal_moves := (\<lambda>b c. map (\<lambda>i. 651 + i) (row_legal_moves b c)),
             play_move := (\<lambda>b m c. row_play_move b (m - 651) c),
             undoMove := (\<lambda>b m. row_undoMove b (m - 651)),
             is_legal := (\<lambda>b m c. row_is_legal b (m - 651) c),
             board_size := (\<lambda>b. 25)\<rparr>"

definition last_row_conn :: "(row_board, color list \<times> color) gtp_connection" where
  "last_row_conn =
     \<lparr>self_board = row_empty 1, self_timelimit = 1,
      self_tt = [25 \<mapsto> Map.empty], self_history_heuristic = [25 \<mapsto> Map.empty]\<rparr>"

section \<open>Reasoning about a run of the solver\<close>

text \<open>
  The ways in which a call and one round of the loop can end, as case rules, and the
  induction over a run that they give.
\<close>

lemma negamax_boolean_cases [consumes 1, case_names timeout hit search]:
  assumes "negamax_boolean ops fuel b tt ht d a = Some out"
  obtains
    (timeout) fuel' where "fuel = Suc fuel'" "fired a" "out = TimeoutError b tt ht"
  | (hit) fuel' res where "fuel = Suc fuel'" "\<not> fired a" "tt_lookup tt (code ops b) = Some res"
      "out = Return res b tt ht (tick a)"
  | (search) fuel' where "fuel = Suc fuel'" "\<not> fired a" "tt_lookup tt (code ops b) = None"
      "negamax_loop ops fuel' (ordered_moves ops ht b) b tt ht d (tick a) = Some out"
  using assms by (cases fuel) (auto simp: Let_def split: if_splits option.splits)

lemma negamax_loop_Nil_eq:
  "negamax_loop ops fuel [] b tt ht d a =
     Some (Return (False, None) b (tt_store tt (code ops b) False None) ht a)"
  by (simp add: store_result_def)

lemma negamax_loop_Cons_cases
  [consumes 1, case_names abort_inside abort_before_undo abort_after_undo abort_after_update win continue]:
  assumes "negamax_loop ops fuel (m # ms) b tt ht d a = Some out"
  obtains
    (abort_inside) b' t' h' where
      "negamax_boolean ops fuel (play ops b m) tt ht (d + 1) a = Some (TimeoutError b' t' h')"
      "out = TimeoutError b' t' h'"
  | (abort_before_undo) res b1 t1 h1 a1 where
      "negamax_boolean ops fuel (play ops b m) tt ht (d + 1) a = Some (Return res b1 t1 h1 a1)"
      "fired a1" "out = TimeoutError b1 t1 h1"
  | (abort_after_undo) res b1 t1 h1 a1 where
      "negamax_boolean ops fuel (play ops b m) tt ht (d + 1) a = Some (Return res b1 t1 h1 a1)"
      "\<not> fired a1" "fired (tick a1)" "out = TimeoutError (undoMove ops b1 m) t1 h1"
  | (abort_after_update) res b1 t1 h1 a1 where
      "negamax_boolean ops fuel (play ops b m) tt ht (d + 1) a = Some (Return res b1 t1 h1 a1)"
      "\<not> fired a1" "\<not> fired (tick a1)" "\<not> fst res" "fired (tick (tick a1))"
      "out = TimeoutError (undoMove ops b1 m) t1 (hh_update h1 m d)"
  | (win) res b1 t1 h1 a1 where
      "negamax_boolean ops fuel (play ops b m) tt ht (d + 1) a = Some (Return res b1 t1 h1 a1)"
      "\<not> fired a1" "\<not> fired (tick a1)" "\<not> fst res" "\<not> fired (tick (tick a1))"
      "out = Return (True, Some m) (undoMove ops b1 m)
               (tt_store t1 (code ops (undoMove ops b1 m)) True (Some m))
               (hh_update h1 m d) (tick (tick (tick a1)))"
  | (continue) res b1 t1 h1 a1 where
      "negamax_boolean ops fuel (play ops b m) tt ht (d + 1) a = Some (Return res b1 t1 h1 a1)"
      "\<not> fired a1" "\<not> fired (tick a1)" "fst res"
      "negamax_loop ops fuel ms (undoMove ops b1 m) t1 h1 d (tick a1) = Some out"
  using assms
  by (auto simp: Let_def store_result_def split: option.splits outcome.splits if_splits)


lemma negamax_loop_run_induct:
  assumes rec: "\<And>b tt ht d a out. negamax_boolean ops fuel b tt ht d a = Some out \<Longrightarrow> P b tt ht d a out"
    and run: "negamax_loop ops fuel ms b tt ht d a = Some out"
    and nil: "\<And>b tt ht d a.
      Q [] b tt ht d a (Return (False, None) b (tt_store tt (code ops b) False None) ht a)"
    and abort_inside: "\<And>m ms b tt ht d a b' t' h'.
      P (play ops b m) tt ht (d + 1) a (TimeoutError b' t' h')
      \<Longrightarrow> Q (m # ms) b tt ht d a (TimeoutError b' t' h')"
    and abort_before_undo: "\<And>m ms b tt ht d a res b1 t1 h1 a1.
      P (play ops b m) tt ht (d + 1) a (Return res b1 t1 h1 a1) \<Longrightarrow> fired a1
      \<Longrightarrow> Q (m # ms) b tt ht d a (TimeoutError b1 t1 h1)"
    and abort_after_undo: "\<And>m ms b tt ht d a res b1 t1 h1 a1.
      P (play ops b m) tt ht (d + 1) a (Return res b1 t1 h1 a1) \<Longrightarrow> \<not> fired a1
      \<Longrightarrow> fired (tick a1)
      \<Longrightarrow> Q (m # ms) b tt ht d a (TimeoutError (undoMove ops b1 m) t1 h1)"
    and abort_after_update: "\<And>m ms b tt ht d a res b1 t1 h1 a1.
      P (play ops b m) tt ht (d + 1) a (Return res b1 t1 h1 a1) \<Longrightarrow> \<not> fired a1
      \<Longrightarrow> \<not> fired (tick a1) \<Longrightarrow> \<not> fst res \<Longrightarrow> fired (tick (tick a1))
      \<Longrightarrow> Q (m # ms) b tt ht d a (TimeoutError (undoMove ops b1 m) t1 (hh_update h1 m d))"
    and win: "\<And>m ms b tt ht d a res b1 t1 h1 a1.
      P (play ops b m) tt ht (d + 1) a (Return res b1 t1 h1 a1) \<Longrightarrow> \<not> fired a1
      \<Longrightarrow> \<not> fired (tick a1) \<Longrightarrow> \<not> fst res \<Longrightarrow> \<not> fired (tick (tick a1))
      \<Longrightarrow> Q (m # ms) b tt ht d a
            (Return (True, Some m) (undoMove ops b1 m)
               (tt_store t1 (code ops (undoMove ops b1 m)) True (Some m))
               (hh_update h1 m d) (tick (tick (tick a1))))"
    and continue: "\<And>m ms b tt ht d a res b1 t1 h1 a1 out.
      P (play ops b m) tt ht (d + 1) a (Return res b1 t1 h1 a1) \<Longrightarrow> \<not> fired a1
      \<Longrightarrow> \<not> fired (tick a1) \<Longrightarrow> fst res
      \<Longrightarrow> Q ms (undoMove ops b1 m) t1 h1 d (tick a1) out
      \<Longrightarrow> Q (m # ms) b tt ht d a out"
  shows "Q ms b tt ht d a out"
  using run
proof (induction ms arbitrary: b tt ht a out)
  case Nil
  then show ?case using nil by (auto simp: store_result_def)
next
  case (Cons m ms)
  from Cons.prems show ?case
  proof (cases rule: negamax_loop_Cons_cases)
    case (abort_inside b' t' h')
    show ?thesis unfolding abort_inside(2)
      by (rule assms(4) [OF rec [OF abort_inside(1)]])
  next
    case (abort_before_undo res b1 t1 h1 a1)
    show ?thesis unfolding abort_before_undo(3)
      by (rule assms(5) [OF rec [OF abort_before_undo(1)] abort_before_undo(2)])
  next
    case (abort_after_undo res b1 t1 h1 a1)
    show ?thesis unfolding abort_after_undo(4)
      by (rule assms(6) [OF rec [OF abort_after_undo(1)] abort_after_undo(2,3)])
  next
    case (abort_after_update res b1 t1 h1 a1)
    show ?thesis unfolding abort_after_update(6)
      by (rule assms(7) [OF rec [OF abort_after_update(1)] abort_after_update(2,3,4,5)])
  next
    case (win res b1 t1 h1 a1)
    show ?thesis unfolding win(6)
      by (rule assms(8) [OF rec [OF win(1)] win(2,3,4,5)])
  next
    case (continue res b1 t1 h1 a1)
    show ?thesis
      by (rule assms(9) [OF rec [OF continue(1)] continue(2,3,4) Cons.IH [OF continue(5)]])
  qed
qed

lemma negamax_run_induct [consumes 1, case_names timeout hit search nil abort_inside
    abort_before_undo abort_after_undo abort_after_update win continue]:
  assumes run: "negamax_boolean ops fuel b tt ht d a = Some out"
    and timeout: "\<And>b tt ht d a. fired a \<Longrightarrow> P b tt ht d a (TimeoutError b tt ht)"
    and hit: "\<And>b tt ht d a res. \<not> fired a \<Longrightarrow> tt_lookup tt (code ops b) = Some res
      \<Longrightarrow> P b tt ht d a (Return res b tt ht (tick a))"
    and search: "\<And>b tt ht d a out. \<not> fired a \<Longrightarrow> tt_lookup tt (code ops b) = None
      \<Longrightarrow> Q (ordered_moves ops ht b) b tt ht d (tick a) out \<Longrightarrow> P b tt ht d a out"
    and nil: "\<And>b tt ht d a.
      Q [] b tt ht d a (Return (False, None) b (tt_store tt (code ops b) False None) ht a)"
    and abort_inside: "\<And>m ms b tt ht d a b' t' h'.
      P (play ops b m) tt ht (d + 1) a (TimeoutError b' t' h')
      \<Longrightarrow> Q (m # ms) b tt ht d a (TimeoutError b' t' h')"
    and abort_before_undo: "\<And>m ms b tt ht d a res b1 t1 h1 a1.
      P (play ops b m) tt ht (d + 1) a (Return res b1 t1 h1 a1) \<Longrightarrow> fired a1
      \<Longrightarrow> Q (m # ms) b tt ht d a (TimeoutError b1 t1 h1)"
    and abort_after_undo: "\<And>m ms b tt ht d a res b1 t1 h1 a1.
      P (play ops b m) tt ht (d + 1) a (Return res b1 t1 h1 a1) \<Longrightarrow> \<not> fired a1
      \<Longrightarrow> fired (tick a1)
      \<Longrightarrow> Q (m # ms) b tt ht d a (TimeoutError (undoMove ops b1 m) t1 h1)"
    and abort_after_update: "\<And>m ms b tt ht d a res b1 t1 h1 a1.
      P (play ops b m) tt ht (d + 1) a (Return res b1 t1 h1 a1) \<Longrightarrow> \<not> fired a1
      \<Longrightarrow> \<not> fired (tick a1) \<Longrightarrow> \<not> fst res \<Longrightarrow> fired (tick (tick a1))
      \<Longrightarrow> Q (m # ms) b tt ht d a (TimeoutError (undoMove ops b1 m) t1 (hh_update h1 m d))"
    and win: "\<And>m ms b tt ht d a res b1 t1 h1 a1.
      P (play ops b m) tt ht (d + 1) a (Return res b1 t1 h1 a1) \<Longrightarrow> \<not> fired a1
      \<Longrightarrow> \<not> fired (tick a1) \<Longrightarrow> \<not> fst res \<Longrightarrow> \<not> fired (tick (tick a1))
      \<Longrightarrow> Q (m # ms) b tt ht d a
            (Return (True, Some m) (undoMove ops b1 m)
               (tt_store t1 (code ops (undoMove ops b1 m)) True (Some m))
               (hh_update h1 m d) (tick (tick (tick a1))))"
    and continue: "\<And>m ms b tt ht d a res b1 t1 h1 a1 out.
      P (play ops b m) tt ht (d + 1) a (Return res b1 t1 h1 a1) \<Longrightarrow> \<not> fired a1
      \<Longrightarrow> \<not> fired (tick a1) \<Longrightarrow> fst res
      \<Longrightarrow> Q ms (undoMove ops b1 m) t1 h1 d (tick a1) out
      \<Longrightarrow> Q (m # ms) b tt ht d a out"
  shows "P b tt ht d a out"
  using run
proof (induction fuel arbitrary: b tt ht d a out)
  case 0
  then show ?case by simp
next
  case (Suc fuel)
  from Suc.prems show ?case
  proof (cases rule: negamax_boolean_cases)
    case (timeout fuel')
    show ?thesis unfolding timeout(3) by (rule assms(2) [OF timeout(2)])
  next
    case (hit fuel' res)
    show ?thesis unfolding hit(4) by (rule assms(3) [OF hit(2,3)])
  next
    case (search fuel')
    then have loop: "negamax_loop ops fuel (ordered_moves ops ht b) b tt ht d (tick a) = Some out"
      by simp
    have "Q (ordered_moves ops ht b) b tt ht d (tick a) out"
      by (rule negamax_loop_run_induct [where P = P and Q = Q, OF Suc.IH loop nil abort_inside
            abort_before_undo abort_after_undo abort_after_update win continue])
    then show ?thesis by (rule assms(4) [OF search(2,3)])
  qed
qed

subsection \<open>The history table only grows\<close>

lemma hist_le_refl: "hist_le h h" by (simp add: hist_le_def)
lemma hist_le_trans: "hist_le h1 h2 \<Longrightarrow> hist_le h2 h3 \<Longrightarrow> hist_le h1 h3"
  unfolding hist_le_def by (meson order_trans)

lemma hh_lookup_update_same: "hh_lookup (hh_update h m d) m = hh_lookup h m + d ^ 2"
  by (simp add: hh_lookup_def hh_update_def split: option.splits)

lemma hh_lookup_update_other: "m' \<noteq> m \<Longrightarrow> hh_lookup (hh_update h m d) m' = hh_lookup h m'"
  by (simp add: hh_lookup_def hh_update_def split: option.splits)

lemma hh_dom_update: "dom (hh_update h m d) = insert m (dom h)"
  by (auto simp add: hh_update_def split: option.splits)

lemma hist_le_update: "hist_le h (hh_update h m d)"
  unfolding hist_le_def
proof (intro conjI allI)
  show "dom h \<subseteq> dom (hh_update h m d)" by (auto simp: hh_dom_update)
  fix m' show "hh_lookup h m' \<le> hh_lookup (hh_update h m d) m'"
    by (cases "m' = m") (simp_all add: hh_lookup_update_same hh_lookup_update_other)
qed

lemma negamax_hist_le:
  assumes "negamax_boolean ops fuel b tt ht d a = Some out"
  shows "hist_le ht (outcome_ht out)"
  using assms
proof (induction rule: negamax_run_induct
    [where Q = "\<lambda>ms b tt ht d a out. hist_le ht (outcome_ht out)"])
  case (continue m ms b tt ht d a res b1 t1 h1 a1 out)
  then show ?case using hist_le_trans by fastforce
qed (auto simp: hist_le_refl intro: hist_le_trans[OF _ hist_le_update])

subsection \<open>Elementary facts about a run\<close>

lemma fired_None [simp]: "\<not> fired None" by (simp add: fired_def)
lemma tick_None [simp]: "tick None = None" by (simp add: tick_def)
lemma tt_lookup_store [simp]: "tt_lookup (tt_store t c r m) c = Some (r, m)"
  by (simp add: tt_lookup_def tt_store_def)

lemma negamax_return_stored:
  assumes "negamax_boolean ops fuel b tt ht d a = Some out"
  shows "\<forall>res b' t' h' a'. out = Return res b' t' h' a' \<longrightarrow> tt_lookup t' (code ops b') = Some res"
  using assms
  by (induction rule: negamax_run_induct
      [where Q = "\<lambda>ms b tt ht d a out.
         \<forall>res b' t' h' a'. out = Return res b' t' h' a' \<longrightarrow> tt_lookup t' (code ops b') = Some res"])
    simp_all

lemma negamax_no_alarm:
  assumes "negamax_boolean ops fuel b tt ht d a = Some out"
  shows "a = None \<longrightarrow> (\<exists>res b' t' h'. out = Return res b' t' h' None)"
  using assms
  by (induction rule: negamax_run_induct
      [where Q = "\<lambda>ms b tt ht d a out. a = None \<longrightarrow> (\<exists>res b' t' h'. out = Return res b' t' h' None)"])
    (auto simp: fired_def)

lemma negamax_restores_board:
  assumes "negamax_boolean ops fuel b tt ht d a = Some out" and ok: "board_ok ops valid rank"
  shows "valid b \<longrightarrow> (\<forall>res b' t' h' a'. out = Return res b' t' h' a' \<longrightarrow> b' = b)"
  using assms(1)
proof (induction rule: negamax_run_induct
      [where Q = "\<lambda>ms b tt ht d a out. valid b \<and> set ms \<subseteq> set (legal ops b) \<longrightarrow>
         (\<forall>res b' t' h' a'. out = Return res b' t' h' a' \<longrightarrow> b' = b)"])
  case (win m ms b tt ht d a res b1 t1 h1 a1)
  then show ?case using ok unfolding board_ok_def by auto
next
  case (continue m ms b tt ht d a res b1 t1 h1 a1 out)
  then show ?case using ok unfolding board_ok_def by auto
qed auto

section \<open>The concrete board is a board\<close>

lemma count_empty_update:
  "i < length xs \<Longrightarrow> xs ! i = EMPTY \<Longrightarrow> c \<noteq> EMPTY
   \<Longrightarrow> length (filter (\<lambda>x. x = EMPTY) (xs[i := c])) < length (filter (\<lambda>x. x = EMPTY) xs)"
proof (induction xs arbitrary: i)
  case Nil
  then show ?case by simp
next
  case (Cons x xs)
  show ?case
  proof (cases i)
    case 0
    then show ?thesis using Cons.prems by (simp add: less_Suc_eq_le)
  next
    case (Suc j)
    then show ?thesis using Cons.IH [of j] Cons.prems by auto
  qed
qed

lemma row_opponent_twice: "c = BLACK \<or> c = WHITE \<Longrightarrow> row_opponent (row_opponent c) = c"
  by auto

lemma row_legal_movesD:
  "m \<in> set (row_legal_moves b c) \<Longrightarrow> 0 \<le> m \<and> row_point_legal b (nat m) c"
  by (auto simp: row_legal_moves_def)

lemma row_board_ok: "board_ok row_ops row_valid row_rank"
  unfolding board_ok_def
proof (intro allI impI, elim conjE)
  fix b m
  assume v: "row_valid b" and m: "m \<in> set (legal row_ops b)"
  then have leg: "row_is_legal b m (to_play b)"
    using row_legal_movesD [of m b "to_play b"] by (simp add: row_ops_def row_is_legal_def)
  then have i: "nat m < length (cells b)" "cells b ! nat m = EMPTY"
    by (simp_all add: row_is_legal_def row_point_legal_def)
  have c: "to_play b \<noteq> EMPTY" using v by (auto simp: row_valid_def)
  have p: "play row_ops b m = \<lparr>cells = (cells b)[nat m := to_play b], to_play = row_opponent (to_play b)\<rparr>"
    using leg by (simp add: row_ops_def row_play_move_def)
  show "row_valid (play row_ops b m) \<and> undoMove row_ops (play row_ops b m) m = b
      \<and> row_rank (play row_ops b m) < row_rank b"
    unfolding p using v i c count_empty_update [OF i c]
    by (auto simp: row_valid_def row_ops_def row_undoMove_def row_rank_def list_update_same_conv)
qed

lemma row_code_inj: "code_inj row_ops row_valid"
  by (simp add: code_inj_def row_ops_def row_code_def)

lemmas row_defs = row_ops_def row_empty_def row_legal_moves_def row_point_legal_def
  row_play_move_def row_is_legal_def row_undoMove_def row_code_def row_count_steps_def
  row_valid_def row_rank_def
lemmas solver_defs = fired_def tick_def tt_lookup_def tt_store_def store_result_def
  hh_lookup_def hh_update_def

lemmas gtp_defs = solve_def genmove_cmd_def after_search_def row_conn_def move_as_string_def
  point_to_coord_def format_point_def py_index_def str_int_def lower_def color_to_int_def
  str_nat.simps

lemma tt_sound_empty: "tt_sound ops valid Map.empty"
  by (simp add: tt_sound_def)

lemma row_empty_valid: "row_valid (row_empty n)"
  by (simp add: row_valid_def row_empty_def)

lemma row_empty_rank: "row_rank (row_empty n) = n"
  by (simp add: row_rank_def row_empty_def)

lemma row3_abort:
  "negamax_boolean row_ops 2 (row_empty 3) Map.empty Map.empty 0 (Some 1)
     = Some (TimeoutError \<lparr>cells = [BLACK, EMPTY, EMPTY], to_play = WHITE\<rparr> Map.empty Map.empty)"
  by (simp add: row_defs solver_defs upt_rec numeral_nat)

lemma row1_abort:
  "negamax_boolean row_ops 3 (row_empty 1) Map.empty Map.empty 0 (Some 2)
     = Some (TimeoutError \<lparr>cells = [BLACK], to_play = WHITE\<rparr>
         [([BLACK], WHITE) \<mapsto> (False, None)] Map.empty)"
  by (simp add: row_defs solver_defs numeral_nat)

section \<open>Properties of all runs\<close>

lemma negamax_boolean_run:
  assumes "negamax_boolean ops fuel b tt ht d a = Some out"
  shows "negamax_run ops b tt ht d a out"
  using assms
  by (induction rule: negamax_run_induct [where Q = "loop_run ops"])
    (auto intro: negamax_run_loop_run.intros)

lemma negamax_loop_run:
  assumes "negamax_loop ops fuel ms b tt ht d a = Some out"
  shows "loop_run ops ms b tt ht d a out"
  by (rule negamax_loop_run_induct [where P = "negamax_run ops" and Q = "loop_run ops", OF _ assms])
    (auto intro: negamax_run_loop_run.intros negamax_boolean_run)

lemma run_restores_board:
  "negamax_run ops b tt ht d a out \<Longrightarrow> board_ok ops valid rank \<Longrightarrow> valid b
     \<Longrightarrow> out = Return res b' t' h' a' \<Longrightarrow> b' = b"
  "loop_run ops ms b tt ht d a out \<Longrightarrow> board_ok ops valid rank \<Longrightarrow> valid b
     \<Longrightarrow> set ms \<subseteq> set (legal ops b) \<Longrightarrow> out = Return res b' t' h' a' \<Longrightarrow> b' = b"
proof (induction arbitrary: res b' t' h' a' and res b' t' h' a' rule: negamax_run_loop_run.inducts)
  case (loop_win b m tt ht d a res b1 t1 h1 a1 ms)
  then show ?case unfolding board_ok_def by auto
next
  case (loop_continue b m tt ht d a res b1 t1 h1 a1 ms out)
  then have "b1 = play ops b m" and "valid (play ops b m)" and "undoMove ops (play ops b m) m = b"
    unfolding board_ok_def by auto
  then show ?case using loop_continue by auto
qed auto

lemma grows_below_refl: "grows_below ops valid rank r tt tt"
  by (auto simp add: grows_below_def)

lemma grows_below_weaken: "grows_below ops valid rank r tt tt' \<Longrightarrow> r \<le> r'
    \<Longrightarrow> grows_below ops valid rank r' tt tt'"
  unfolding grows_below_def by (meson order_trans)

lemma grows_below_trans:
  assumes "grows_below ops valid rank r t1 t2" and "grows_below ops valid rank r t2 t3"
  shows "grows_below ops valid rank r t1 t3"
proof -
  have le: "t1 \<subseteq>\<^sub>m t3" using assms unfolding grows_below_def by (meson map_le_trans)
  have "\<exists>b'. valid b' \<and> rank b' \<le> r \<and> code ops b' = c" if "t1 c = None" "t3 c \<noteq> None" for c
  proof (cases "t2 c")
    case None
    then show ?thesis using assms(2) that unfolding grows_below_def by blast
  next
    case (Some v)
    then show ?thesis using assms(1) that unfolding grows_below_def by blast
  qed
  then show ?thesis using le unfolding grows_below_def by blast
qed

lemma grows_below_fresh:
  assumes g: "grows_below ops valid rank r tt t1" and inj: "code_inj ops valid"
    and v: "valid b" and r: "r < rank b" and miss: "tt (code ops b) = None"
  shows "t1 (code ops b) = None"
proof (rule ccontr)
  assume "t1 (code ops b) \<noteq> None"
  then obtain b' where "valid b'" "rank b' \<le> r" "code ops b' = code ops b"
    using g miss unfolding grows_below_def by blast
  then have "b' = b" using inj v unfolding code_inj_def by blast
  then show False using \<open>rank b' \<le> r\<close> r by simp
qed

lemma grows_below_store:
  assumes "t1 (code ops b) = None" and "valid b"
  shows "grows_below ops valid rank (rank b) t1 (tt_store t1 (code ops b) res mv)"
  using assms unfolding grows_below_def tt_store_def
  by (auto simp: map_le_def)

lemma run_tables_grow:
  "negamax_run ops b tt ht d a out \<Longrightarrow> board_ok ops valid rank \<Longrightarrow> code_inj ops valid
     \<Longrightarrow> valid b \<Longrightarrow> grows_below ops valid rank (rank b) tt (outcome_tt out)"
  "loop_run ops ms b tt ht d a out \<Longrightarrow> board_ok ops valid rank \<Longrightarrow> code_inj ops valid
     \<Longrightarrow> valid b \<Longrightarrow> set ms \<subseteq> set (legal ops b) \<Longrightarrow> tt (code ops b) = None
     \<Longrightarrow> grows_below ops valid rank (rank b) tt (outcome_tt out)"
proof (induction rule: negamax_run_loop_run.inducts)
  case (run_timeout a b tt ht d)
  then show ?case by (simp add: grows_below_refl)
next
  case (run_hit a tt b res ht d)
  then show ?case by (simp add: grows_below_refl)
next
  case (run_search a tt b ht d out)
  then show ?case by (simp add: tt_lookup_def)
next
  case (loop_nil b tt ht d a)
  then show ?case by (simp add: grows_below_store)
next
  case (loop_abort_inside b m tt ht d a b' t' h' ms)
  then have "valid (play ops b m)" "rank (play ops b m) < rank b"
    unfolding board_ok_def by auto
  then show ?case using loop_abort_inside grows_below_weaken [of ops valid rank "rank (play ops b m)"]
    by auto
next
  case (loop_abort_before_undo b m tt ht d a res b1 t1 h1 a1 ms)
  then have "valid (play ops b m)" "rank (play ops b m) < rank b"
    unfolding board_ok_def by auto
  then show ?case using loop_abort_before_undo
      grows_below_weaken [of ops valid rank "rank (play ops b m)"]
    by auto
next
  case (loop_abort_after_undo b m tt ht d a res b1 t1 h1 a1 ms)
  then have "valid (play ops b m)" "rank (play ops b m) < rank b"
    unfolding board_ok_def by auto
  then show ?case using loop_abort_after_undo
      grows_below_weaken [of ops valid rank "rank (play ops b m)"]
    by auto
next
  case (loop_abort_after_update b m tt ht d a res b1 t1 h1 a1 ms)
  then have "valid (play ops b m)" "rank (play ops b m) < rank b"
    unfolding board_ok_def by auto
  then show ?case using loop_abort_after_update
      grows_below_weaken [of ops valid rank "rank (play ops b m)"]
    by auto
next
  case (loop_win b m tt ht d a res b1 t1 h1 a1 ms)
  then have c: "valid (play ops b m)" "rank (play ops b m) < rank b"
    "undoMove ops (play ops b m) m = b"
    unfolding board_ok_def by auto
  have b1: "b1 = play ops b m"
    using run_restores_board(1) [OF loop_win.IH(1) loop_win.prems(1) c(1)] by simp
  have g: "grows_below ops valid rank (rank (play ops b m)) tt t1"
    using loop_win.IH(2) [OF loop_win.prems(1,2) c(1)] by simp
  have fresh: "t1 (code ops b) = None"
    by (rule grows_below_fresh [OF g loop_win.prems(2,3) c(2) loop_win.prems(5)])
  have g': "grows_below ops valid rank (rank b) tt t1"
    using g c(2) by (simp add: grows_below_weaken)
  have st: "grows_below ops valid rank (rank b) t1 (tt_store t1 (code ops b) True (Some m))"
    using fresh loop_win.prems(3) by (simp add: grows_below_store)
  show ?case
    using grows_below_trans [OF g' st] c b1 by simp
next
  case (loop_continue b m tt ht d a res b1 t1 h1 a1 ms out)
  then have c: "valid (play ops b m)" "rank (play ops b m) < rank b"
    "undoMove ops (play ops b m) m = b"
    unfolding board_ok_def by auto
  have b1: "b1 = play ops b m"
    using run_restores_board(1) [OF loop_continue.IH(1) loop_continue.prems(1) c(1)] by simp
  have g: "grows_below ops valid rank (rank (play ops b m)) tt t1"
    using loop_continue.IH(2) [OF loop_continue.prems(1,2) c(1)] by simp
  have fresh: "t1 (code ops b) = None"
    by (rule grows_below_fresh [OF g loop_continue.prems(2,3) c(2) loop_continue.prems(5)])
  have "grows_below ops valid rank (rank b) t1 (outcome_tt out)"
    using loop_continue.IH(4) [OF loop_continue.prems(1,2)] loop_continue.prems(3,4) fresh c(3) b1
    by simp
  moreover have "grows_below ops valid rank (rank b) tt t1"
    using g c(2) by (simp add: grows_below_weaken)
  ultimately show ?case
    using grows_below_trans by blast
qed

lemma wins_not_all_children:
  assumes ok: "board_ok ops valid rank"
  shows "valid e \<Longrightarrow> wins ops e \<Longrightarrow> \<exists>m \<in> set (legal ops e). \<not> wins ops (play ops e m)"
proof (induction "rank e" arbitrary: e rule: less_induct)
  case less
  from less.prems(2) obtain m where m: "m \<in> set (legal ops e)"
    and all: "\<forall>m' \<in> set (legal ops (play ops e m)). wins ops (play ops (play ops e m) m')"
    by (cases rule: wins.cases) blast
  have c: "valid (play ops e m)" "rank (play ops e m) < rank e"
    using ok less.prems(1) m unfolding board_ok_def by auto
  show ?case
  proof (cases "wins ops (play ops e m)")
    case True
    from less.hyps [OF c(2) c(1) True] all show ?thesis by blast
  next
    case False
    then show ?thesis using m by blast
  qed
qed

lemma not_wins_all_children:
  assumes ok: "board_ok ops valid rank"
  shows "valid c \<Longrightarrow> \<not> wins ops c \<Longrightarrow> m \<in> set (legal ops c) \<Longrightarrow> wins ops (play ops c m)"
proof (induction "rank c" arbitrary: c m rule: less_induct)
  case less
  have e: "valid (play ops c m)" "rank (play ops c m) < rank c"
    using ok less.prems(1,3) unfolding board_ok_def by auto
  show ?case
  proof (rule ccontr)
    assume n: "\<not> wins ops (play ops c m)"
    have "\<forall>m' \<in> set (legal ops (play ops c m)). wins ops (play ops (play ops c m) m')"
      using less.hyps [OF e(2) e(1) n] by blast
    then have "wins ops c" using less.prems(3) by (rule wins_by [rotated])
    then show False using less.prems(2) by simp
  qed
qed

lemma wins_iff:
  assumes "board_ok ops valid rank" and "valid b"
  shows "wins ops b \<longleftrightarrow> (\<exists>m \<in> set (legal ops b). \<not> wins ops (play ops b m))"
  using wins_not_all_children [OF assms(1) assms(2)] not_wins_all_children [OF assms(1) assms(2)]
  by blast

lemma result_ok_win:
  assumes "board_ok ops valid rank" and "valid b" and "m \<in> set (legal ops b)"
    and "\<not> wins ops (play ops b m)"
  shows "result_ok ops b (True, Some m)"
  using assms wins_iff [OF assms(1,2)] unfolding result_ok_def by auto

lemma result_ok_loss:
  assumes "board_ok ops valid rank" and "valid b"
    and "\<forall>m \<in> set (legal ops b). wins ops (play ops b m)"
  shows "result_ok ops b (False, None)"
  using assms wins_iff [OF assms(1,2)] unfolding result_ok_def by auto

lemma tt_soundD:
  "tt_sound ops valid t \<Longrightarrow> valid b \<Longrightarrow> t (code ops b) = Some res \<Longrightarrow> result_ok ops b res"
  unfolding tt_sound_def by blast

lemma tt_sound_store:
  assumes "tt_sound ops valid t" and "code_inj ops valid" and "valid b" and "result_ok ops b (r, mv)"
  shows "tt_sound ops valid (tt_store t (code ops b) r mv)"
  unfolding tt_sound_def
proof (intro allI impI, elim conjE)
  fix b' res
  assume v: "valid b'" and s: "tt_store t (code ops b) r mv (code ops b') = Some res"
  show "result_ok ops b' res"
  proof (cases "code ops b' = code ops b")
    case True
    then have "b' = b" using assms(2,3) v unfolding code_inj_def by blast
    then show ?thesis using s assms(4) by (simp add: tt_store_def)
  next
    case False
    then have "t (code ops b') = Some res" using s by (simp add: tt_store_def)
    then show ?thesis using assms(1) v by (rule tt_soundD [rotated 2])
  qed
qed

lemma run_sound:
  "negamax_run ops b tt ht d a out \<Longrightarrow> board_ok ops valid rank \<Longrightarrow> code_inj ops valid
     \<Longrightarrow> valid b \<Longrightarrow> tt_sound ops valid tt
     \<Longrightarrow> tt_sound ops valid (outcome_tt out)
       \<and> (\<forall>res b' t' h' a'. out = Return res b' t' h' a' \<longrightarrow> result_ok ops b res)"
  "loop_run ops ms b tt ht d a out \<Longrightarrow> board_ok ops valid rank \<Longrightarrow> code_inj ops valid
     \<Longrightarrow> valid b \<Longrightarrow> tt_sound ops valid tt \<Longrightarrow> set ms \<subseteq> set (legal ops b)
     \<Longrightarrow> (\<forall>m \<in> set (legal ops b) - set ms. wins ops (play ops b m))
     \<Longrightarrow> tt_sound ops valid (outcome_tt out)
       \<and> (\<forall>res b' t' h' a'. out = Return res b' t' h' a' \<longrightarrow> result_ok ops b res)"
proof (induction rule: negamax_run_loop_run.inducts)
  case (run_timeout a b tt ht d)
  then show ?case by simp
next
  case (run_hit a tt b res ht d)
  then show ?case using tt_soundD [of ops valid tt b res] by (simp add: tt_lookup_def)
next
  case (run_search a tt b ht d out)
  then show ?case by simp
next
  case (loop_nil b tt ht d a)
  then have "result_ok ops b (False, None)" by (simp add: result_ok_loss)
  then show ?case using loop_nil by (simp add: tt_sound_store)
next
  case (loop_abort_inside b m tt ht d a b' t' h' ms)
  then have "valid (play ops b m)" unfolding board_ok_def by auto
  then show ?case using loop_abort_inside by simp
next
  case (loop_abort_before_undo b m tt ht d a res b1 t1 h1 a1 ms)
  then have "valid (play ops b m)" unfolding board_ok_def by auto
  then show ?case using loop_abort_before_undo by simp
next
  case (loop_abort_after_undo b m tt ht d a res b1 t1 h1 a1 ms)
  then have "valid (play ops b m)" unfolding board_ok_def by auto
  then show ?case using loop_abort_after_undo by simp
next
  case (loop_abort_after_update b m tt ht d a res b1 t1 h1 a1 ms)
  then have "valid (play ops b m)" unfolding board_ok_def by auto
  then show ?case using loop_abort_after_update by simp
next
  case (loop_win b m tt ht d a res b1 t1 h1 a1 ms)
  then have c: "valid (play ops b m)" "m \<in> set (legal ops b)"
    "undoMove ops (play ops b m) m = b"
    unfolding board_ok_def by auto
  have b1: "b1 = play ops b m"
    using run_restores_board(1) [OF loop_win.IH(1) loop_win.prems(1) c(1)] by simp
  have sub: "tt_sound ops valid t1" "result_ok ops (play ops b m) res"
    using loop_win.IH(2) [OF loop_win.prems(1,2) c(1) loop_win.prems(4)] by simp_all
  then have "\<not> wins ops (play ops b m)" using loop_win.hyps unfolding result_ok_def by auto
  then have "result_ok ops b (True, Some m)"
    using loop_win.prems(1,3) c(2) by (simp add: result_ok_win)
  then show ?case using sub(1) loop_win.prems(2,3) b1 c(3) by (simp add: tt_sound_store)
next
  case (loop_continue b m tt ht d a res b1 t1 h1 a1 ms out)
  then have c: "valid (play ops b m)" "m \<in> set (legal ops b)"
    "undoMove ops (play ops b m) m = b"
    unfolding board_ok_def by auto
  have b1: "b1 = play ops b m"
    using run_restores_board(1) [OF loop_continue.IH(1) loop_continue.prems(1) c(1)] by simp
  have sub: "tt_sound ops valid t1" "result_ok ops (play ops b m) res"
    using loop_continue.IH(2) [OF loop_continue.prems(1,2) c(1) loop_continue.prems(4)]
    by simp_all
  then have w: "wins ops (play ops b m)" using loop_continue.hyps unfolding result_ok_def by auto
  have rest: "\<forall>m' \<in> set (legal ops b) - set ms. wins ops (play ops b m')"
    using w loop_continue.prems(6) by auto
  show ?case
    using loop_continue.IH(4) [OF loop_continue.prems(1,2)] loop_continue.prems(3,5) sub(1) rest
      b1 c(3) by simp
qed

lemma run_return_stored:
  "negamax_run ops b tt ht d a out \<Longrightarrow> out = Return res b' t' h' a'
     \<Longrightarrow> tt_lookup t' (code ops b') = Some res"
  "loop_run ops ms b tt ht d a out \<Longrightarrow> out = Return res b' t' h' a'
     \<Longrightarrow> tt_lookup t' (code ops b') = Some res"
  by (induction arbitrary: res b' t' h' a' and res b' t' h' a'
      rule: negamax_run_loop_run.inducts) auto

lemma loop_run_exhaustive:
  "negamax_run ops b tt ht d a out \<Longrightarrow> True"
  "loop_run ops ms b tt ht d a out \<Longrightarrow> board_ok ops valid rank \<Longrightarrow> code_inj ops valid
     \<Longrightarrow> valid b \<Longrightarrow> set ms \<subseteq> set (legal ops b) \<Longrightarrow> tt (code ops b) = None
     \<Longrightarrow> out = Return res b' t' h' a' \<Longrightarrow> \<not> fst res
     \<Longrightarrow> \<forall>m \<in> set ms. \<exists>mv. tt_lookup t' (code ops (play ops b m)) = Some (True, mv)"
proof (induction arbitrary: and res b' t' h' a' rule: negamax_run_loop_run.inducts)
  case (loop_continue b m tt ht d a res1 b1 t1 h1 a1 ms out)
  then have c: "valid (play ops b m)" "rank (play ops b m) < rank b"
    "undoMove ops (play ops b m) m = b"
    unfolding board_ok_def by auto
  have b1: "b1 = play ops b m"
    using run_restores_board(1) [OF loop_continue.IH(1) loop_continue.prems(1) c(1)] by simp
  have g: "grows_below ops valid rank (rank (play ops b m)) tt t1"
    using run_tables_grow(1) [OF loop_continue.IH(1) loop_continue.prems(1,2) c(1)] by simp
  have fresh: "t1 (code ops b) = None"
    by (rule grows_below_fresh [OF g loop_continue.prems(2,3) c(2) loop_continue.prems(5)])
  have stored: "t1 (code ops (play ops b m)) = Some (True, snd res1)"
    using run_return_stored(1) [OF loop_continue.IH(1)] b1 loop_continue.hyps
    by (cases res1) (simp add: tt_lookup_def)
  have "grows_below ops valid rank (rank b) t1 (outcome_tt out)"
    using run_tables_grow(2) [OF loop_continue.IH(3) loop_continue.prems(1,2)]
      loop_continue.prems(3,4) fresh b1 c(3) by simp
  then have "t1 \<subseteq>\<^sub>m t'" using loop_continue.prems(6) by (simp add: grows_below_def)
  then have here: "tt_lookup t' (code ops (play ops b m)) = Some (True, snd res1)"
    using stored by (metis domI map_le_def tt_lookup_def)
  have rest: "\<forall>m' \<in> set ms. \<exists>mv. tt_lookup t' (code ops (play ops b m')) = Some (True, mv)"
    using loop_continue.IH(4) [OF loop_continue.prems(1,2) _ _ _ loop_continue.prems(6,7)]
      loop_continue.prems(3,4) fresh b1 c(3) by simp
  show ?case using here rest by auto
qed auto

lemma loop_run_first_win:
  "negamax_run ops b tt ht d a out \<Longrightarrow> True"
  "loop_run ops ms b tt ht d a out \<Longrightarrow> board_ok ops valid rank \<Longrightarrow> code_inj ops valid
     \<Longrightarrow> valid b \<Longrightarrow> tt_sound ops valid tt \<Longrightarrow> set ms \<subseteq> set (legal ops b)
     \<Longrightarrow> out = Return res b' t' h' a' \<Longrightarrow> fst res
     \<Longrightarrow> \<exists>m pre post. snd res = Some m \<and> ms = pre @ m # post
           \<and> (\<forall>m' \<in> set pre. wins ops (play ops b m'))"
proof (induction arbitrary: and res b' t' h' a' rule: negamax_run_loop_run.inducts)
  case (loop_win b m tt ht d a res1 b1 t1 h1 a1 ms)
  then have "snd res = Some m \<and> m # ms = [] @ m # ms \<and> (\<forall>m' \<in> set []. wins ops (play ops b m'))"
    by auto
  then show ?case by blast
next
  case (loop_continue b m tt ht d a res1 b1 t1 h1 a1 ms out)
  then have c: "valid (play ops b m)" "undoMove ops (play ops b m) m = b"
    unfolding board_ok_def by auto
  have b1: "b1 = play ops b m"
    using run_restores_board(1) [OF loop_continue.IH(1) loop_continue.prems(1) c(1)] by simp
  have sub: "tt_sound ops valid t1" "result_ok ops (play ops b m) res1"
    using run_sound(1) [OF loop_continue.IH(1) loop_continue.prems(1,2) c(1) loop_continue.prems(4)]
    by simp_all
  then have w: "wins ops (play ops b m)" using loop_continue.hyps unfolding result_ok_def by auto
  obtain m0 pre post where r: "snd res = Some m0" "ms = pre @ m0 # post"
    "\<forall>m' \<in> set pre. wins ops (play ops b m')"
    using loop_continue.IH(4) [OF loop_continue.prems(1,2) _ sub(1) _ loop_continue.prems(6,7)]
      loop_continue.prems(3,5) b1 c(2) by auto
  then have "snd res = Some m0 \<and> m # ms = (m # pre) @ m0 # post
     \<and> (\<forall>m' \<in> set (m # pre). wins ops (play ops b m'))"
    using w by simp
  then show ?case by blast
qed auto

lemma negamax_terminates:
  assumes ok: "board_ok ops valid rank"
  shows "valid b \<Longrightarrow> rank b < fuel \<Longrightarrow> \<exists>out. negamax_boolean ops fuel b tt ht d None = Some out"
proof (induction fuel arbitrary: b tt ht d)
  case 0
  then show ?case by simp
next
  case (Suc fuel)
  have loop: "\<exists>out. negamax_loop ops fuel ms b tt ht d None = Some out"
    if "valid b" "rank b \<le> fuel" "set ms \<subseteq> set (legal ops b)" for ms b tt ht d
    using that
  proof (induction ms arbitrary: tt ht)
    case Nil
    then show ?case by (simp add: store_result_def)
  next
    case (Cons m ms)
    then have "valid (play ops b m) \<and> undoMove ops (play ops b m) m = b
        \<and> rank (play ops b m) < rank b"
      using ok unfolding board_ok_def by simp
    then have c: "valid (play ops b m)" "rank (play ops b m) < fuel"
      "undoMove ops (play ops b m) m = b"
      using Cons.prems(2) by simp_all
    obtain out1 where o: "negamax_boolean ops fuel (play ops b m) tt ht (d + 1) None = Some out1"
      using Suc.IH [OF c(1,2)] by blast
    then obtain res b1 t1 h1 where r: "out1 = Return res b1 t1 h1 None"
      using negamax_no_alarm [OF o] by auto
    have b1: "b1 = play ops b m"
      using negamax_restores_board [OF o ok] c(1) r by simp
    have "set ms \<subseteq> set (legal ops b)" using Cons.prems(3) by simp
    then obtain out2 where "negamax_loop ops fuel ms b t1 h1 d None = Some out2"
      using Cons.IH [OF Cons.prems(1,2)] by blast
    then show ?case using o r b1 c(3) by (simp add: Let_def store_result_def)
  qed
  show ?case using loop [of b "ordered_moves ops ht b"] Suc.prems
    by (simp split: option.splits)
qed

lemma recorded_refl: "recorded tt tt' ht ht"
  by (simp add: recorded_def)

lemma recorded_trans:
  assumes "recorded t1 t2 h1 h2" and "recorded t2 t3 h2 h3" and "t1 \<subseteq>\<^sub>m t2" and "t2 \<subseteq>\<^sub>m t3"
  shows "recorded t1 t3 h1 h3"
  unfolding recorded_def
proof (intro allI impI)
  fix m assume d: "h3 m \<noteq> h1 m"
  show "\<exists>c. t1 c = None \<and> t3 c = Some (True, Some m)"
  proof (cases "h2 m = h1 m")
    case True
    then have "h3 m \<noteq> h2 m" using d by simp
    then obtain c where c: "t2 c = None" "t3 c = Some (True, Some m)"
      using assms(2) unfolding recorded_def by blast
    then have "t1 c = None" using assms(3) by (metis domIff map_le_def)
    then show ?thesis using c by blast
  next
    case False
    then obtain c where c: "t1 c = None" "t2 c = Some (True, Some m)"
      using assms(1) unfolding recorded_def by blast
    then have "t3 c = Some (True, Some m)" using assms(4) by (metis domI map_le_def)
    then show ?thesis using c by blast
  qed
qed

lemma recorded_update_store:
  assumes "t1 c = None"
  shows "recorded t1 (tt_store t1 c True (Some m)) h1 (hh_update h1 m d)"
  using assms unfolding recorded_def tt_store_def hh_update_def
  by (auto split: option.splits if_splits)

lemma run_recorded:
  "negamax_run ops b tt ht d a out \<Longrightarrow> board_ok ops valid rank \<Longrightarrow> code_inj ops valid
     \<Longrightarrow> valid b \<Longrightarrow> out = Return res b' t' h' a' \<Longrightarrow> recorded tt t' ht h'"
  "loop_run ops ms b tt ht d a out \<Longrightarrow> board_ok ops valid rank \<Longrightarrow> code_inj ops valid
     \<Longrightarrow> valid b \<Longrightarrow> set ms \<subseteq> set (legal ops b) \<Longrightarrow> tt (code ops b) = None
     \<Longrightarrow> out = Return res b' t' h' a' \<Longrightarrow> recorded tt t' ht h'"
proof (induction arbitrary: res b' t' h' a' and res b' t' h' a'
    rule: negamax_run_loop_run.inducts)
  case (run_hit a tt b res ht d)
  then show ?case by (auto simp: recorded_refl)
next
  case (run_search a tt b ht d out)
  then show ?case by (simp add: tt_lookup_def)
next
  case (loop_nil b tt ht d a)
  then show ?case by (auto simp: recorded_refl)
next
  case (loop_win b m tt ht d a res1 b1 t1 h1 a1 ms)
  then have c: "valid (play ops b m)" "rank (play ops b m) < rank b"
    "undoMove ops (play ops b m) m = b"
    unfolding board_ok_def by auto
  have b1: "b1 = play ops b m"
    using run_restores_board(1) [OF loop_win.IH(1) loop_win.prems(1) c(1)] by simp
  have g: "grows_below ops valid rank (rank (play ops b m)) tt t1"
    using run_tables_grow(1) [OF loop_win.IH(1) loop_win.prems(1,2) c(1)] by simp
  have fresh: "t1 (code ops b) = None"
    by (rule grows_below_fresh [OF g loop_win.prems(2,3) c(2) loop_win.prems(5)])
  have r1: "recorded tt t1 ht h1"
    using loop_win.IH(2) [OF loop_win.prems(1,2) c(1)] by simp
  have r2: "recorded t1 (tt_store t1 (code ops b) True (Some m)) h1 (hh_update h1 m d)"
    using fresh by (rule recorded_update_store)
  have le1: "tt \<subseteq>\<^sub>m t1" using g by (simp add: grows_below_def)
  have le2: "t1 \<subseteq>\<^sub>m tt_store t1 (code ops b) True (Some m)"
    using fresh by (auto simp: tt_store_def map_le_def)
  show ?case using recorded_trans [OF r1 r2 le1 le2] loop_win.prems(6) b1 c(3) by auto
next
  case (loop_continue b m tt ht d a res1 b1 t1 h1 a1 ms out)
  then have c: "valid (play ops b m)" "rank (play ops b m) < rank b"
    "undoMove ops (play ops b m) m = b"
    unfolding board_ok_def by auto
  have b1: "b1 = play ops b m"
    using run_restores_board(1) [OF loop_continue.IH(1) loop_continue.prems(1) c(1)] by simp
  have g: "grows_below ops valid rank (rank (play ops b m)) tt t1"
    using run_tables_grow(1) [OF loop_continue.IH(1) loop_continue.prems(1,2) c(1)] by simp
  have fresh: "t1 (code ops b) = None"
    by (rule grows_below_fresh [OF g loop_continue.prems(2,3) c(2) loop_continue.prems(5)])
  have r1: "recorded tt t1 ht h1"
    using loop_continue.IH(2) [OF loop_continue.prems(1,2) c(1)] by simp
  have ms: "set ms \<subseteq> set (legal ops b)" using loop_continue.prems(4) by simp
  have r2: "recorded t1 t' h1 h'"
    using loop_continue.IH(4) [OF loop_continue.prems(1,2) _ _ _ loop_continue.prems(6)]
      loop_continue.prems(3) ms fresh b1 c(3) by simp
  have "grows_below ops valid rank (rank b) t1 (outcome_tt out)"
    using run_tables_grow(2) [OF loop_continue.IH(3) loop_continue.prems(1,2)]
      loop_continue.prems(3) ms fresh b1 c(3) by simp
  then have le2: "t1 \<subseteq>\<^sub>m t'" using loop_continue.prems(6) by (simp add: grows_below_def)
  have le1: "tt \<subseteq>\<^sub>m t1" using g by (simp add: grows_below_def)
  show ?case by (rule recorded_trans [OF r1 r2 le1 le2])
qed auto

lemma run_alarm_decreases:
  "negamax_run ops b tt ht d a out \<Longrightarrow> a = Some n \<Longrightarrow> out = Return res b' t' h' a'
     \<Longrightarrow> \<exists>n'. a' = Some n' \<and> n' < n"
  "loop_run ops ms b tt ht d a out \<Longrightarrow> a = Some n \<Longrightarrow> out = Return res b' t' h' a'
     \<Longrightarrow> \<exists>n'. a' = Some n' \<and> n' \<le> n"
proof (induction arbitrary: n res b' t' h' a' and n res b' t' h' a'
    rule: negamax_run_loop_run.inducts)
  case (run_hit a tt b res ht d)
  then show ?case by (auto simp: fired_def tick_def)
next
  case (run_search a tt b ht d out)
  then have t: "tick a = Some (n - 1)" "0 < n" by (auto simp: fired_def tick_def)
  then have "\<exists>n'. a' = Some n' \<and> n' \<le> n - 1"
    using run_search.IH run_search.prems(2) by blast
  then show ?case using t(2) by fastforce
next
  case (loop_win b m tt ht d a res1 b1 t1 h1 a1 ms)
  then obtain n1 where "a1 = Some n1" "n1 < n" by blast
  then show ?case using loop_win.prems by (auto simp: tick_def)
next
  case (loop_continue b m tt ht d a res1 b1 t1 h1 a1 ms out)
  then obtain n1 where n1: "a1 = Some n1" "n1 < n" by blast
  then have "tick a1 = Some (n1 - 1)" by (simp add: tick_def)
  from loop_continue.IH(4) [OF this loop_continue.prems(2)] n1 show ?case by fastforce
qed auto

lemma negamax_total_under_alarm:
  "n < fuel \<Longrightarrow> \<exists>out. negamax_boolean ops fuel b tt ht d (Some n) = Some out"
proof (induction fuel arbitrary: n b tt ht d)
  case 0
  then show ?case by simp
next
  case (Suc fuel)
  have loop: "\<exists>out. negamax_loop ops fuel ms b tt ht d (Some k) = Some out"
    if "k < fuel" for ms b tt ht d k
    using that
  proof (induction ms arbitrary: tt ht k b)
    case Nil
    then show ?case by (simp add: store_result_def)
  next
    case (Cons m ms)
    obtain out1 where o: "negamax_boolean ops fuel (play ops b m) tt ht (d + 1) (Some k) = Some out1"
      using Suc.IH [OF Cons.prems] by blast
    show ?case
    proof (cases out1)
      case (TimeoutError b' t' h')
      then show ?thesis using o by simp
    next
      case (Return res b1 t1 h1 a1)
      then obtain k1 where k1: "a1 = Some k1" "k1 < k"
        using run_alarm_decreases(1) [OF negamax_boolean_run [OF o]] by blast
      then have "k1 - 1 < fuel" using Cons.prems by simp
      from Cons.IH [OF this]
      obtain out2 where "negamax_loop ops fuel ms (undoMove ops b1 m) t1 h1 d (Some (k1 - 1)) = Some out2"
        by blast
      then show ?thesis using o Return k1
        by (simp add: Let_def store_result_def tick_def)
    qed
  qed
  show ?case
  proof (cases n)
    case 0
    then show ?thesis by (simp add: fired_def)
  next
    case (Suc k)
    then have "k < fuel" using Suc.prems by simp
    from loop [OF this] show ?thesis using Suc
      by (simp add: fired_def tick_def split: option.splits)
  qed
qed

section \<open>The flag of \<^verbatim>\<open>play_move\<close>, and a board that rejects\<close>

lemma negamax_ignores_flag:
  fixes ops :: "('b, 'c) board_ops" and flag :: "'b \<Rightarrow> int \<Rightarrow> color \<Rightarrow> bool"
  defines "ops' \<equiv> ops\<lparr>play_move := (\<lambda>b m c. (flag b m c, snd (play_move ops b m c)))\<rparr>"
  shows "negamax_boolean ops' fuel b tt ht d a = negamax_boolean ops fuel b tt ht d a"
proof (induction fuel arbitrary: b tt ht d a)
  case 0
  then show ?case by simp
next
  case (Suc fuel)
  have loop: "negamax_loop ops' fuel ms b tt ht d a = negamax_loop ops fuel ms b tt ht d a"
    for ms b tt ht d a
  proof (induction ms arbitrary: b tt ht a)
    case Nil
    then show ?case by (simp add: ops'_def store_result_def)
  next
    case (Cons m ms)
    have p: "play ops' b m = play ops b m" by (simp add: ops'_def)
    show ?case
      unfolding negamax_loop.simps p Suc.IH
      by (simp add: Cons.IH [unfolded ops'_def] ops'_def store_result_def Let_def
          split: option.splits outcome.splits)
  qed
  have "legal ops' b = legal ops b" "code ops' b = code ops b"
    by (simp_all add: ops'_def)
  then show ?case
    unfolding negamax_boolean.simps loop
    by (simp add: Let_def split: option.splits)
qed

lemma reject_never_returns:
  "negamax_boolean reject_ops fuel (row_empty 1) Map.empty Map.empty d None = None"
proof (induction fuel arbitrary: d)
  case 0
  then show ?case by simp
next
  case (Suc fuel)
  have "legal reject_ops (row_empty 1) = [0]"
    by (simp add: reject_ops_def row_defs)
  moreover have "play reject_ops (row_empty 1) 0 = row_empty 1"
    by (simp add: reject_ops_def row_defs)
  ultimately show ?case using Suc.IH [of "d + 1"]
    by (simp add: solver_defs)
qed

section \<open>Facts for the claims about \<^verbatim>\<open>genmove\<close>\<close>

lemma no_moves_no_win: "legal ops b = [] \<Longrightarrow> \<not> wins ops b"
  by (auto elim: wins.cases)

lemma row_legal_play_changes_code: "legal_play_changes_code row_ops row_valid"
  unfolding legal_play_changes_code_def
proof (intro allI impI, elim conjE)
  fix b m c
  assume v: "row_valid b" and l: "is_legal row_ops b m c"
  then have leg: "row_is_legal b m c" by (simp add: row_ops_def)
  then have i: "nat m < length (cells b)" "cells b ! nat m = EMPTY"
    by (simp_all add: row_is_legal_def row_point_legal_def)
  have p: "snd (play_move row_ops b m c)
      = \<lparr>cells = (cells b)[nat m := c], to_play = row_opponent c\<rparr>"
    using leg by (simp add: row_ops_def row_play_move_def)
  show "code row_ops (snd (play_move row_ops b m c)) \<noteq> code row_ops b"
  proof (cases "c = EMPTY")
    case True
    then show ?thesis using v p by (auto simp: row_ops_def row_code_def row_valid_def)
  next
    case False
    then have "(cells b)[nat m := c] \<noteq> cells b"
      using i by (metis nth_list_update_eq)
    then show ?thesis using p by (simp add: row_ops_def row_code_def)
  qed
qed

lemma row_legal_play_passes_turn: "legal_play_passes_turn row_ops row_valid"
  unfolding legal_play_passes_turn_def
  by (auto simp: row_ops_def row_play_move_def row_valid_def)

lemma row3_wins: "wins row_ops (row_empty 3)"
proof (rule wins_by [of 1])
  show "1 \<in> set (legal row_ops (row_empty 3))"
    by (simp add: row_defs upt_rec numeral_nat)
  show "\<forall>m' \<in> set (legal row_ops (play row_ops (row_empty 3) 1)).
      wins row_ops (play row_ops (play row_ops (row_empty 3) 1) m')"
    by (simp add: row_defs upt_rec numeral_nat)
qed

lemma row3_genmove:
  "\<exists>self'. genmove_cmd row_ops 4 (row_conn 3) [''b''] = Some (Responded ''a0'' self')
     \<and> self_board self' = \<lparr>cells = [EMPTY, BLACK, EMPTY], to_play = WHITE\<rparr>"
  by (simp add: gtp_defs row_defs solver_defs upt_rec numeral_nat)

lemma row_conn_tables:
  "self_tt (row_conn n) (board_size row_ops (self_board (row_conn n))) = Some Map.empty"
  "self_history_heuristic (row_conn n) (board_size row_ops (self_board (row_conn n))) = Some Map.empty"
  "self_board (row_conn n) = row_empty n"
  by (simp_all add: row_conn_def row_ops_def row_empty_def)

lemma row3_after_0:
  "\<exists>t1 h1. negamax_boolean row_ops 3 (play row_ops (row_empty 3) 0) Map.empty Map.empty (0 + 1) None
     = Some (Return (True, Some 2) \<lparr>cells = [BLACK, EMPTY, EMPTY], to_play = WHITE\<rparr> t1 h1 None)"
  by (simp add: row_defs solver_defs upt_rec numeral_nat)

lemma only_winning_moves_refl: "only_winning_moves ops valid ht ht"
  by (simp add: only_winning_moves_def)

lemma only_winning_moves_trans:
  "only_winning_moves ops valid h1 h2 \<Longrightarrow> only_winning_moves ops valid h2 h3
     \<Longrightarrow> only_winning_moves ops valid h1 h3"
  unfolding only_winning_moves_def by metis

lemma only_winning_moves_update:
  assumes "valid b" and "m \<in> set (legal ops b)" and "\<not> wins ops (play ops b m)"
  shows "only_winning_moves ops valid h (hh_update h m d)"
  unfolding only_winning_moves_def hh_update_def
  using assms by (auto split: option.splits if_splits)

lemma run_only_winning_moves:
  "negamax_run ops b tt ht d a out \<Longrightarrow> board_ok ops valid rank \<Longrightarrow> code_inj ops valid
     \<Longrightarrow> valid b \<Longrightarrow> tt_sound ops valid tt
     \<Longrightarrow> only_winning_moves ops valid ht (outcome_ht out)"
  "loop_run ops ms b tt ht d a out \<Longrightarrow> board_ok ops valid rank \<Longrightarrow> code_inj ops valid
     \<Longrightarrow> valid b \<Longrightarrow> tt_sound ops valid tt \<Longrightarrow> set ms \<subseteq> set (legal ops b)
     \<Longrightarrow> only_winning_moves ops valid ht (outcome_ht out)"
proof (induction rule: negamax_run_loop_run.inducts)
  case (run_timeout a b tt ht d)
  then show ?case by (simp add: only_winning_moves_refl)
next
  case (run_hit a tt b res ht d)
  then show ?case by (simp add: only_winning_moves_refl)
next
  case (run_search a tt b ht d out)
  then show ?case by simp
next
  case (loop_nil b tt ht d a)
  then show ?case by (simp add: only_winning_moves_refl)
next
  case (loop_abort_inside b m tt ht d a b' t' h' ms)
  then have "valid (play ops b m)" unfolding board_ok_def by auto
  then show ?case using loop_abort_inside by simp
next
  case (loop_abort_before_undo b m tt ht d a res b1 t1 h1 a1 ms)
  then have "valid (play ops b m)" unfolding board_ok_def by auto
  then show ?case using loop_abort_before_undo by simp
next
  case (loop_abort_after_undo b m tt ht d a res b1 t1 h1 a1 ms)
  then have "valid (play ops b m)" unfolding board_ok_def by auto
  then show ?case using loop_abort_after_undo by simp
next
  case (loop_abort_after_update b m tt ht d a res b1 t1 h1 a1 ms)
  then have c: "valid (play ops b m)" "m \<in> set (legal ops b)" unfolding board_ok_def by auto
  have sub: "result_ok ops (play ops b m) res"
    using run_sound(1) [OF loop_abort_after_update.IH(1) loop_abort_after_update.prems(1,2) c(1)
        loop_abort_after_update.prems(4)] by simp
  then have nw: "\<not> wins ops (play ops b m)"
    using loop_abort_after_update.hyps unfolding result_ok_def by auto
  have r1: "only_winning_moves ops valid ht h1"
    using loop_abort_after_update.IH(2)
      [OF loop_abort_after_update.prems(1,2) c(1) loop_abort_after_update.prems(4)] by simp
  have r2: "only_winning_moves ops valid h1 (hh_update h1 m d)"
    using loop_abort_after_update.prems(3) c(2) nw by (rule only_winning_moves_update)
  show ?case using only_winning_moves_trans [OF r1 r2] by simp
next
  case (loop_win b m tt ht d a res b1 t1 h1 a1 ms)
  then have c: "valid (play ops b m)" "m \<in> set (legal ops b)" unfolding board_ok_def by auto
  have sub: "result_ok ops (play ops b m) res"
    using run_sound(1) [OF loop_win.IH(1) loop_win.prems(1,2) c(1) loop_win.prems(4)] by simp
  then have nw: "\<not> wins ops (play ops b m)"
    using loop_win.hyps unfolding result_ok_def by auto
  have r1: "only_winning_moves ops valid ht h1"
    using loop_win.IH(2) [OF loop_win.prems(1,2) c(1) loop_win.prems(4)] by simp
  have r2: "only_winning_moves ops valid h1 (hh_update h1 m d)"
    using loop_win.prems(3) c(2) nw by (rule only_winning_moves_update)
  show ?case using only_winning_moves_trans [OF r1 r2] by simp
next
  case (loop_continue b m tt ht d a res b1 t1 h1 a1 ms out)
  then have c: "valid (play ops b m)" "undoMove ops (play ops b m) m = b"
    unfolding board_ok_def by auto
  have b1: "b1 = play ops b m"
    using run_restores_board(1) [OF loop_continue.IH(1) loop_continue.prems(1) c(1)] by simp
  have snd: "tt_sound ops valid t1"
    using run_sound(1) [OF loop_continue.IH(1) loop_continue.prems(1,2) c(1)
        loop_continue.prems(4)] by simp
  have r1: "only_winning_moves ops valid ht h1"
    using loop_continue.IH(2) [OF loop_continue.prems(1,2) c(1) loop_continue.prems(4)] by simp
  have ms: "set ms \<subseteq> set (legal ops b)" using loop_continue.prems(5) by simp
  have r2: "only_winning_moves ops valid h1 (outcome_ht out)"
    using loop_continue.IH(4) [OF loop_continue.prems(1,2) _ snd]
      loop_continue.prems(3) ms b1 c(2) by simp
  show ?case by (rule only_winning_moves_trans [OF r1 r2])
qed

lemma row3_genmove_white:
  "\<exists>self'. genmove_cmd row_ops 4 (row_conn 3) [''w''] = Some (Responded ''a0'' self')
     \<and> self_board self' = \<lparr>cells = [EMPTY, WHITE, EMPTY], to_play = BLACK\<rparr>"
  by (simp add: gtp_defs row_defs solver_defs upt_rec numeral_nat)

lemma negamax_result_ok:
  assumes ok: "board_ok ops valid rank" and inj: "code_inj ops valid" and v: "valid b"
    and s: "tt_sound ops valid tt" and f: "rank b < fuel"
  shows "\<exists>res t' h'. negamax_boolean ops fuel b tt ht d None = Some (Return res b t' h' None)
           \<and> result_ok ops b res"
proof -
  obtain out where o: "negamax_boolean ops fuel b tt ht d None = Some out"
    using negamax_terminates [OF ok v f] by blast
  then obtain res b' t' h' where out: "out = Return res b' t' h' None"
    using negamax_no_alarm [OF o] by auto
  have b': "b' = b" using negamax_restores_board [OF o ok] v out by simp
  have "negamax_run ops b tt ht d None out" using o by (rule negamax_boolean_run)
  then have "result_ok ops b res"
    using run_sound(1) [of ops b tt ht d None out valid rank] ok inj v s out by simp
  then show ?thesis using o out b' by blast
qed

lemma last_row_wins: "wins last_row_ops (row_empty 1)"
proof (rule wins_by [of 651])
  show "651 \<in> set (legal last_row_ops (row_empty 1))"
    by (simp add: last_row_ops_def row_defs)
  show "\<forall>m' \<in> set (legal last_row_ops (play last_row_ops (row_empty 1) 651)).
      wins last_row_ops (play last_row_ops (play last_row_ops (row_empty 1) 651) m')"
    by (simp add: last_row_ops_def row_defs)
qed

text \<open>
  What \<^verbatim>\<open>genmove\<close> does on a board that honours \<^verbatim>\<open>undoMove\<close>, ends every game and codes
  positions apart, with right tables: \<^verbatim>\<open>resign\<close> when the player to move has no forced win,
  and otherwise, for the solver's move, what formatting and the legality test for the
  requested colour decide.
\<close>

lemma genmove_cmd_outcomes:
  assumes ok: "board_ok ops valid rank" and inj: "code_inj ops valid"
    and v: "valid (self_board self)"
    and a: "args = arg0 # rest" and col: "color_to_int (lower arg0) = Inr color"
    and t: "self_tt self (board_size ops (self_board self)) = Some t"
    and h: "self_history_heuristic self (board_size ops (self_board self)) = Some h"
    and s: "tt_sound ops valid t" and f: "rank (self_board self) < fuel"
  shows "\<exists>rep t' h'. genmove_cmd ops fuel self args = Some rep
     \<and> (\<not> wins ops (self_board self) \<longrightarrow>
           rep = Responded ''resign''
                   (after_search self (board_size ops (self_board self)) (self_board self) t' h'))
     \<and> (legal ops (self_board self) = [] \<longrightarrow>
           rep = Responded ''resign''
                   (after_search self (board_size ops (self_board self)) (self_board self) t' h'))
     \<and> (wins ops (self_board self) \<longrightarrow>
           (\<exists>m. m \<in> set (legal ops (self_board self))
              \<and> \<not> wins ops (play ops (self_board self) m)
              \<and> (case move_as_string ops m (board_size ops (self_board self)) of
                    Inl e \<Rightarrow>
                      rep = Raised e
                        (after_search self (board_size ops (self_board self)) (self_board self) t' h')
                  | Inr str \<Rightarrow>
                      if is_legal ops (self_board self) m color
                      then rep = Responded (lower str)
                             ((after_search self (board_size ops (self_board self))
                                 (self_board self) t' h')
                              \<lparr>self_board := snd (play_move ops (self_board self) m color)\<rparr>)
                      else rep = Responded ''resign''
                             (after_search self (board_size ops (self_board self))
                                (self_board self) t' h'))))"
proof -
  let ?b = "self_board self"
  let ?sz = "board_size ops ?b"
  obtain res t' h' where
    eq: "negamax_boolean ops fuel ?b t h 0 None = Some (Return res ?b t' h' None)"
    and rok: "result_ok ops ?b res"
    using negamax_result_ok [OF ok inj v s f, of h 0] by blast
  have flag: "fst res \<longleftrightarrow> wins ops ?b"
    using rok unfolding result_ok_def by (auto split: if_splits)
  have mv: "fst res \<longrightarrow> (\<exists>m. snd res = Some m \<and> m \<in> set (legal ops ?b) \<and> \<not> wins ops (play ops ?b m))"
    using rok unfolding result_ok_def by (auto split: if_splits)
  have nomv: "\<not> fst res \<longrightarrow> snd res = None"
    using rok unfolding result_ok_def by (auto split: if_splits)
  let ?self1 = "after_search self ?sz ?b t' h'"
  show ?thesis
  proof (cases "wins ops ?b")
    case False
    then have "snd res = None" using flag nomv by simp
    then have g: "genmove_cmd ops fuel self args = Some (Responded ''resign'' ?self1)"
      using a col t h eq by (simp add: genmove_cmd_def Let_def)
    show ?thesis
      apply (rule exI [of _ "Responded ''resign'' ?self1"], rule exI [of _ t'], rule exI [of _ h'])
      using g False by simp
  next
    case True
    then obtain m where m: "snd res = Some m" "m \<in> set (legal ops ?b)"
      "\<not> wins ops (play ops ?b m)"
      using flag mv by blast
    have nl: "legal ops ?b \<noteq> []" using m(2) by auto
    have geq: "genmove_cmd ops fuel self args =
        (case move_as_string ops m ?sz of
           Inl e \<Rightarrow> Some (Raised e ?self1)
         | Inr str \<Rightarrow>
             if is_legal ops ?b m color
             then Some (Responded (lower str)
                    (?self1\<lparr>self_board := snd (play_move ops ?b m color)\<rparr>))
             else Some (Responded ''resign'' ?self1))"
      using a col t h eq m(1) by (simp add: genmove_cmd_def Let_def)
    obtain rep where g: "genmove_cmd ops fuel self args = Some rep"
      and r: "case move_as_string ops m ?sz of
                Inl e \<Rightarrow> rep = Raised e ?self1
              | Inr str \<Rightarrow>
                  if is_legal ops ?b m color
                  then rep = Responded (lower str)
                         (?self1\<lparr>self_board := snd (play_move ops ?b m color)\<rparr>)
                  else rep = Responded ''resign'' ?self1"
    proof (cases "move_as_string ops m ?sz")
      case (Inl e)
      then show ?thesis using geq that [of "Raised e ?self1"] by simp
    next
      case (Inr str)
      show ?thesis
      proof (cases "is_legal ops ?b m color")
        case True
        then show ?thesis
          using geq Inr
            that [of "Responded (lower str) (?self1\<lparr>self_board := snd (play_move ops ?b m color)\<rparr>)"]
          by simp
      next
        case False
        then show ?thesis using geq Inr that [of "Responded ''resign'' ?self1"] by simp
      qed
    qed
    show ?thesis
      apply (rule exI [of _ rep], rule exI [of _ t'], rule exI [of _ h'])
      using g True nl m(2,3) r by blast
  qed
qed

lemma genmove_cmd_scenarios:
  "board_ok row_ops row_valid row_rank \<and> code_inj row_ops row_valid
   \<and> row_valid (self_board (row_conn 0)) \<and> color_to_int (lower ''B'') = Inr BLACK
   \<and> tt_sound row_ops row_valid Map.empty \<and> row_rank (self_board (row_conn 0)) < 1
   \<and> legal row_ops (self_board (row_conn 0)) = []
   \<and> (\<exists>self'. genmove_cmd row_ops 1 (row_conn 0) [''B''] = Some (Responded ''resign'' self')
         \<and> self_board self' = self_board (row_conn 0))
   \<and> wins row_ops (self_board (row_conn 3))
   \<and> (\<exists>self'. genmove_cmd row_ops 4 (row_conn 3) [''b''] = Some (Responded ''a0'' self')
         \<and> self_board self' = \<lparr>cells = [EMPTY, BLACK, EMPTY], to_play = WHITE\<rparr>)"
proof -
  have v: "row_valid (self_board (row_conn 0))"
    by (simp add: row_conn_tables row_empty_valid)
  have col: "color_to_int (lower ''B'') = Inr BLACK"
    by (simp add: color_to_int_def lower_def)
  have f: "row_rank (self_board (row_conn 0)) < 1"
    by (simp add: row_conn_tables row_empty_rank)
  have l: "legal row_ops (self_board (row_conn 0)) = []"
    by (simp add: row_conn_tables row_defs)
  obtain rep t' h' where g: "genmove_cmd row_ops 1 (row_conn 0) [''B''] = Some rep"
    and r: "legal row_ops (self_board (row_conn 0)) = [] \<longrightarrow>
       rep = Responded ''resign''
         (after_search (row_conn 0) (board_size row_ops (self_board (row_conn 0)))
            (self_board (row_conn 0)) t' h')"
    using genmove_cmd_outcomes [OF row_board_ok row_code_inj v refl col row_conn_tables(1,2)
        tt_sound_empty f]
    by blast
  have resign: "\<exists>self'. genmove_cmd row_ops 1 (row_conn 0) [''B''] = Some (Responded ''resign'' self')
         \<and> self_board self' = self_board (row_conn 0)"
    using g r l by (simp add: after_search_def)
  have w: "wins row_ops (self_board (row_conn 3))"
    using row3_wins by (simp add: row_conn_tables)
  show ?thesis
    using row_board_ok row_code_inj v col tt_sound_empty f l resign w row3_genmove by blast
qed

section \<open>The claims\<close>

text \<open>
  C1. On a board that honours \<^verbatim>\<open>undoMove\<close>, ends every game and gives every position a
  code of its own, and with a table whose entries are right, \<^verbatim>\<open>negamax_boolean\<close> returns
  (with no alarm armed, and with fuel above the number of moves the game can still last):
  it leaves the board as it found it, and its flag is \<^verbatim>\<open>True\<close> exactly when the player to
  move has a forced win, which is the case exactly when some legal move leads to a
  position that is not a forced win for the opponent. With the flag \<^verbatim>\<open>True\<close> it returns
  such a move, a legal one; otherwise it returns no move. The table stays right. The
  search is exhaustive but for the table and the cut at the first win: after a loss found
  by search, every legal move's position is in the table as a win for the opponent, and
  after a win found by search, the move returned is the first in the order of the search
  that wins.
\<close>

theorem negamax_boolean_solves:
  assumes ok: "board_ok ops valid rank" and inj: "code_inj ops valid" and v: "valid b"
    and s: "tt_sound ops valid tt" and f: "rank b < fuel"
  shows "\<exists>res tt' ht'.
      negamax_boolean ops fuel b tt ht d None = Some (Return res b tt' ht' None)
    \<and> (fst res \<longleftrightarrow> wins ops b)
    \<and> (wins ops b \<longleftrightarrow> (\<exists>m \<in> set (legal ops b). \<not> wins ops (play ops b m)))
    \<and> (fst res \<longrightarrow> (\<exists>m. snd res = Some m \<and> m \<in> set (legal ops b) \<and> \<not> wins ops (play ops b m)))
    \<and> (\<not> fst res \<longrightarrow> snd res = None)
    \<and> tt_sound ops valid tt'
    \<and> (tt_lookup tt (code ops b) = None \<and> \<not> fst res \<longrightarrow>
         (\<forall>m \<in> set (legal ops b). \<exists>mv. tt_lookup tt' (code ops (play ops b m)) = Some (True, mv)))
    \<and> (tt_lookup tt (code ops b) = None \<and> fst res \<longrightarrow>
         (\<exists>m pre post. snd res = Some m \<and> ordered_moves ops ht b = pre @ m # post
            \<and> (\<forall>m' \<in> set pre. wins ops (play ops b m'))))"
proof -
  obtain out where o: "negamax_boolean ops fuel b tt ht d None = Some out"
    using negamax_terminates [OF ok v f] by blast
  then obtain res b' tt' ht' where r: "out = Return res b' tt' ht' None"
    using negamax_no_alarm [OF o] by auto
  have b': "b' = b" using negamax_restores_board [OF o ok] v r by simp
  have run: "negamax_run ops b tt ht d None out" by (rule negamax_boolean_run [OF o])
  have snd: "tt_sound ops valid tt'" "result_ok ops b res"
    using run_sound(1) [OF run ok inj v s] r by simp_all
  have iff: "wins ops b \<longleftrightarrow> (\<exists>m \<in> set (legal ops b). \<not> wins ops (play ops b m))"
    by (rule wins_iff [OF ok v])
  have ex: "\<forall>m \<in> set (legal ops b). \<exists>mv. tt_lookup tt' (code ops (play ops b m)) = Some (True, mv)"
    if miss: "tt_lookup tt (code ops b) = None" and loss: "\<not> fst res"
    using o
  proof (cases rule: negamax_boolean_cases)
    case (search fuel')
    have l: "loop_run ops (ordered_moves ops ht b) b tt ht d (tick None) out"
      by (rule negamax_loop_run [OF search(4)])
    have "\<forall>m \<in> set (ordered_moves ops ht b).
        \<exists>mv. tt_lookup tt' (code ops (play ops b m)) = Some (True, mv)"
      by (rule loop_run_exhaustive(2) [OF l ok inj v _ _ r loss])
        (use miss in \<open>simp_all add: tt_lookup_def\<close>)
    then show ?thesis by simp
  qed (use miss in simp_all)
  have first: "\<exists>m pre post. snd res = Some m \<and> ordered_moves ops ht b = pre @ m # post
            \<and> (\<forall>m' \<in> set pre. wins ops (play ops b m'))"
    if miss: "tt_lookup tt (code ops b) = None" and win: "fst res"
    using o
  proof (cases rule: negamax_boolean_cases)
    case (search fuel')
    have l: "loop_run ops (ordered_moves ops ht b) b tt ht d (tick None) out"
      by (rule negamax_loop_run [OF search(4)])
    show ?thesis
      by (rule loop_run_first_win(2) [OF l ok inj v s _ r win]) simp
  qed (use miss in simp_all)
  have eq: "negamax_boolean ops fuel b tt ht d None = Some (Return res b tt' ht' None)"
    using o r b' by simp
  have flag: "fst res \<longleftrightarrow> wins ops b"
    using snd(2) unfolding result_ok_def by (auto split: if_splits)
  have mv: "fst res \<longrightarrow> (\<exists>m. snd res = Some m \<and> m \<in> set (legal ops b) \<and> \<not> wins ops (play ops b m))"
    using snd(2) unfolding result_ok_def by (auto split: if_splits)
  have nomv: "\<not> fst res \<longrightarrow> snd res = None"
    using snd(2) unfolding result_ok_def by (auto split: if_splits)
  show ?thesis
    apply (rule exI [of _ res], rule exI [of _ tt'], rule exI [of _ ht'])
    apply (intro conjI)
    subgoal by (rule eq)
    subgoal by (rule flag)
    subgoal by (rule iff)
    subgoal by (rule mv)
    subgoal by (rule nomv)
    subgoal by (rule snd(1))
    subgoal using ex by blast
    subgoal using first by blast
    done
qed

theorem negamax_boolean_solves_witness:
  "board_ok row_ops row_valid row_rank \<and> code_inj row_ops row_valid \<and> row_valid (row_empty 3)
   \<and> tt_sound row_ops row_valid Map.empty \<and> row_rank (row_empty 3) < 4
   \<and> wins row_ops (row_empty 3)
   \<and> (\<exists>tt' ht'. negamax_boolean row_ops 4 (row_empty 3) Map.empty Map.empty 0 None
         = Some (Return (True, Some 1) (row_empty 3) tt' ht' None))"
proof -
  have r: "row_rank (row_empty 3) < 4" by (simp add: row_empty_rank)
  obtain res tt' ht' where
    eq: "negamax_boolean row_ops 4 (row_empty 3) Map.empty Map.empty 0 None
          = Some (Return res (row_empty 3) tt' ht' None)"
    and w: "fst res \<longleftrightarrow> wins row_ops (row_empty 3)"
    using negamax_boolean_solves [OF row_board_ok row_code_inj row_empty_valid tt_sound_empty r,
        of Map.empty 0]
    by blast
  have "\<exists>t h. negamax_boolean row_ops 4 (row_empty 3) Map.empty Map.empty 0 None
      = Some (Return (True, Some 1) (row_empty 3) t h None)"
    by (simp add: row_defs solver_defs upt_rec numeral_nat)
  then have res: "res = (True, Some 1)" using eq by auto
  then have "wins row_ops (row_empty 3)" using w by simp
  then show ?thesis
    using row_board_ok row_code_inj row_empty_valid tt_sound_empty r eq res by blast
qed

text \<open>
  C2. \<^verbatim>\<open>solve\<close> leaves the board as it found it, whether the solver returns or the alarm
  fires: on a board that honours \<^verbatim>\<open>undoMove\<close> and whose \<^verbatim>\<open>copy\<close> is a faithful copy, and
  with fuel above the number of interruption points before the alarm, \<^verbatim>\<open>solve\<close> ends, and
  the board of the connection afterwards is the board before, with the same code and the
  same player to move. And any call of \<^verbatim>\<open>negamax_boolean\<close> that returns, as the one
  \<^verbatim>\<open>genmove\<close> makes, hands back the board it was given.
\<close>

theorem solve_leaves_board:
  assumes ok: "board_ok ops valid rank" and v: "valid (self_board self)"
    and c: "copy ops (self_board self) = self_board self" and f: "n < fuel"
  shows "\<exists>rep. solve ops fuel n self args = Some rep
       \<and> self_board (reply_conn rep) = self_board self
       \<and> code ops (self_board (reply_conn rep)) = code ops (self_board self)
       \<and> current_player ops (self_board (reply_conn rep)) = current_player ops (self_board self)
       \<and> (\<forall>fuel' t h d a res b' t' h' a'.
             negamax_boolean ops fuel' (self_board self) t h d a = Some (Return res b' t' h' a')
             \<longrightarrow> b' = self_board self)"
proof -
  let ?b = "self_board self"
  let ?sz = "board_size ops ?b"
  have ret: "b' = ?b"
    if "negamax_boolean ops fuel' ?b t h d a = Some (Return res b' t' h' a')"
    for fuel' t h d a res b' t' h' a'
    using negamax_restores_board [OF that ok] v by simp
  have "\<exists>rep. solve ops fuel n self args = Some rep \<and> self_board (reply_conn rep) = ?b"
  proof (cases "self_tt self ?sz")
    case None
    then show ?thesis by (simp add: solve_def)
  next
    case (Some t)
    note t = this
    show ?thesis
    proof (cases "self_history_heuristic self ?sz")
      case None
      then show ?thesis using t by (simp add: solve_def)
    next
      case (Some h)
      obtain out where o: "negamax_boolean ops fuel ?b t h (count_steps ops ?b) (Some n) = Some out"
        using negamax_total_under_alarm [OF f, of ops ?b t h "count_steps ops ?b"] by (elim exE)
      show ?thesis
      proof (cases out)
        case (TimeoutError b1 t1 h1)
        then show ?thesis using t Some o c by (simp add: solve_def after_search_def Let_def)
      next
        case (Return res b1 t1 h1 a1)
        then have "b1 = ?b" using negamax_restores_board [OF o ok] v by simp
        then show ?thesis using t Some o c Return
          by (auto simp: solve_def after_search_def Let_def split: option.splits sum.splits)
      qed
    qed
  qed
  then show ?thesis using ret by auto
qed

theorem solve_leaves_board_witness:
  "board_ok row_ops row_valid row_rank \<and> row_valid (self_board (row_conn 3))
   \<and> copy row_ops (self_board (row_conn 3)) = self_board (row_conn 3) \<and> (1::nat) < 2
   \<and> (\<exists>rep. solve row_ops 2 1 (row_conn 3) [] = Some rep
         \<and> self_board (reply_conn rep) = self_board (row_conn 3)
         \<and> code row_ops (self_board (reply_conn rep)) = code row_ops (self_board (row_conn 3))
         \<and> current_player row_ops (self_board (reply_conn rep))
             = current_player row_ops (self_board (row_conn 3)))
   \<and> negamax_boolean row_ops 2 (self_board (row_conn 3)) Map.empty Map.empty 0 (Some 1)
       = Some (TimeoutError \<lparr>cells = [BLACK, EMPTY, EMPTY], to_play = WHITE\<rparr> Map.empty Map.empty)"
proof -
  have v: "row_valid (self_board (row_conn 3))"
    by (simp add: row_conn_def row_empty_valid)
  have c: "copy row_ops (self_board (row_conn 3)) = self_board (row_conn 3)"
    by (simp add: row_ops_def)
  have f: "(1::nat) < 2" by simp
  have a: "negamax_boolean row_ops 2 (self_board (row_conn 3)) Map.empty Map.empty 0 (Some 1)
       = Some (TimeoutError \<lparr>cells = [BLACK, EMPTY, EMPTY], to_play = WHITE\<rparr> Map.empty Map.empty)"
    using row3_abort by (simp add: row_conn_def)
  from solve_leaves_board [OF row_board_ok v c f, of "[]"] row_board_ok v c f a
  show ?thesis by blast
qed

text \<open>
  C3. When the alarm fires before the solver returns (or before \<^verbatim>\<open>signal.alarm(0)\<close>),
  \<^verbatim>\<open>solve\<close> responds \<^verbatim>\<open>unknown\<close> and the board of the connection afterwards is the copy
  taken before the search, not the board the aborted search left behind; the tables keep
  what the search stored, and if the table was right it still is. With a faithful copy the
  board is the one before the call.
\<close>

theorem solve_timeout_restores_snapshot:
  assumes t: "self_tt self (board_size ops (self_board self)) = Some t"
    and h: "self_history_heuristic self (board_size ops (self_board self)) = Some h"
    and o: "negamax_boolean ops fuel (self_board self) t h (count_steps ops (self_board self))
              (Some n) = Some out"
    and x: "timed_out out"
  shows "\<exists>self'. solve ops fuel n self args = Some (Responded ''unknown'' self')
       \<and> self_board self' = copy ops (self_board self)
       \<and> self_tt self' = (self_tt self)(board_size ops (self_board self) \<mapsto> outcome_tt out)
       \<and> self_history_heuristic self'
           = (self_history_heuristic self)(board_size ops (self_board self) \<mapsto> outcome_ht out)
       \<and> (copy ops (self_board self) = self_board self \<longrightarrow> self_board self' = self_board self)
       \<and> (board_ok ops valid rank \<and> code_inj ops valid \<and> valid (self_board self)
            \<and> tt_sound ops valid t \<longrightarrow> tt_sound ops valid (outcome_tt out))"
proof -
  have snd: "tt_sound ops valid (outcome_tt out)"
    if "board_ok ops valid rank \<and> code_inj ops valid \<and> valid (self_board self)
            \<and> tt_sound ops valid t"
    using run_sound(1) [OF negamax_boolean_run [OF o], of valid rank] that by simp
  show ?thesis
    using t h o x snd
    by (cases out) (simp_all add: solve_def after_search_def Let_def)
qed

theorem solve_timeout_restores_snapshot_witness:
  "negamax_boolean row_ops 3 (self_board (row_conn 1)) Map.empty Map.empty
       (count_steps row_ops (self_board (row_conn 1))) (Some 2)
     = Some (TimeoutError \<lparr>cells = [BLACK], to_play = WHITE\<rparr>
         [([BLACK], WHITE) \<mapsto> (False, None)] Map.empty)
   \<and> timed_out (TimeoutError \<lparr>cells = [BLACK], to_play = WHITE\<rparr>
         [([BLACK], WHITE) \<mapsto> (False, None)] Map.empty)
   \<and> (\<exists>self'. solve row_ops 3 2 (row_conn 1) [] = Some (Responded ''unknown'' self')
         \<and> self_board self' = row_empty 1
         \<and> self_tt self' = [1 \<mapsto> [([BLACK], WHITE) \<mapsto> (False, None)]])
   \<and> tt_sound row_ops row_valid [([BLACK], WHITE) \<mapsto> (False, None)]"
proof -
  let ?out = "TimeoutError \<lparr>cells = [BLACK], to_play = WHITE\<rparr>
         [([BLACK], WHITE) \<mapsto> (False, None)] Map.empty"
  have o: "negamax_boolean row_ops 3 (self_board (row_conn 1)) Map.empty Map.empty
       (count_steps row_ops (self_board (row_conn 1))) (Some 2) = Some ?out"
    using row1_abort by (simp add: row_conn_def row_ops_def row_count_steps_def row_empty_def)
  have x: "timed_out ?out" by simp
  have v: "row_valid (self_board (row_conn 1))"
    by (simp add: row_conn_tables row_empty_valid)
  obtain self' where s: "solve row_ops 3 2 (row_conn 1) [] = Some (Responded ''unknown'' self')"
    and b: "self_board self' = copy row_ops (self_board (row_conn 1))"
    and tb: "self_tt self' = (self_tt (row_conn 1))
               (board_size row_ops (self_board (row_conn 1)) \<mapsto> outcome_tt ?out)"
    and snd: "board_ok row_ops row_valid row_rank \<and> code_inj row_ops row_valid
            \<and> row_valid (self_board (row_conn 1)) \<and> tt_sound row_ops row_valid Map.empty
          \<longrightarrow> tt_sound row_ops row_valid (outcome_tt ?out)"
    using solve_timeout_restores_snapshot [OF row_conn_tables(1,2) o x, of "[]" row_valid row_rank]
    by blast
  have b': "self_board self' = row_empty 1"
    using b by (simp add: row_ops_def row_conn_def)
  have tb': "self_tt self' = [1 \<mapsto> [([BLACK], WHITE) \<mapsto> (False, None)]]"
    using tb by (simp add: row_conn_def row_ops_def row_empty_def)
  have snd': "tt_sound row_ops row_valid [([BLACK], WHITE) \<mapsto> (False, None)]"
    using snd row_board_ok row_code_inj v tt_sound_empty [of row_ops row_valid] by simp
  show ?thesis using o x s b' tb' snd' by blast
qed

text \<open>
  C4. A position in which the player to move has no legal move is a loss for that player:
  when the table has no entry for the position, the loop runs over no move and falls
  through to \<^verbatim>\<open>store_result(tt, board, False, None)\<close>, so the solver returns
  \<^verbatim>\<open>(False, None)\<close>, leaves the board and the history table as they were, and the table
  afterwards holds \<^verbatim>\<open>(False, None)\<close> under the position's code. When the table already
  holds that entry, the lookup returns it. (An alarm that has already fired raises
  instead.)
\<close>

theorem no_legal_moves_is_loss:
  assumes "legal ops b = []"
    and "tt_lookup tt (code ops b) = None \<or> tt_lookup tt (code ops b) = Some (False, None)"
    and "\<not> fired a"
  shows "\<exists>tt'. negamax_boolean ops (Suc fuel) b tt ht d a
             = Some (Return (False, None) b tt' ht (tick a))
         \<and> tt_lookup tt' (code ops b) = Some (False, None)
         \<and> (tt_lookup tt (code ops b) = None \<longrightarrow> tt' = tt_store tt (code ops b) False None)"
  using assms by (auto simp: store_result_def)

theorem no_legal_moves_is_loss_witness:
  "legal row_ops \<lparr>cells = [EMPTY, BLACK, EMPTY], to_play = WHITE\<rparr> = []
   \<and> negamax_boolean row_ops (Suc 0) \<lparr>cells = [EMPTY, BLACK, EMPTY], to_play = WHITE\<rparr>
        Map.empty Map.empty 3 None
     = Some (Return (False, None) \<lparr>cells = [EMPTY, BLACK, EMPTY], to_play = WHITE\<rparr>
         [([EMPTY, BLACK, EMPTY], WHITE) \<mapsto> (False, None)] Map.empty None)"
proof -
  let ?b = "\<lparr>cells = [EMPTY, BLACK, EMPTY], to_play = WHITE\<rparr>"
  have none: "legal row_ops ?b = []"
    by (simp add: row_defs upt_rec numeral_nat)
  have miss: "tt_lookup Map.empty (code row_ops ?b) = None
      \<or> tt_lookup Map.empty (code row_ops ?b) = Some (False, None)"
    by (simp add: tt_lookup_def)
  from no_legal_moves_is_loss [OF none miss fired_None, of 0 Map.empty 3]
  have "negamax_boolean row_ops (Suc 0) ?b Map.empty Map.empty 3 None
      = Some (Return (False, None) ?b (tt_store Map.empty (code row_ops ?b) False None)
          Map.empty (tick None))"
    by (auto simp: tt_lookup_def)
  then show ?thesis using none by (simp add: tt_store_def row_ops_def row_code_def)
qed

text \<open>
  C5, as stated, fails: nothing in \<^verbatim>\<open>negamax_boolean\<close> runs \<^verbatim>\<open>undoMove\<close> when the recursive
  call is aborted. On the row of three cells, with the alarm firing at the second
  interruption point, the exception leaves the solver with Black's stone still on the
  board. The same happens when the alarm fires after the recursive call has returned and
  before \<^verbatim>\<open>undoMove\<close> runs: on the row of one cell, with the alarm firing at the third
  interruption point, the recursive call has stored and returned its result and the stone
  is still on the board.
\<close>

theorem undo_skipped_on_abort:
  "negamax_boolean row_ops 2 (row_empty 3) Map.empty Map.empty 0 (Some 1)
     = Some (TimeoutError \<lparr>cells = [BLACK, EMPTY, EMPTY], to_play = WHITE\<rparr> Map.empty Map.empty)
   \<and> code row_ops \<lparr>cells = [BLACK, EMPTY, EMPTY], to_play = WHITE\<rparr> \<noteq> code row_ops (row_empty 3)
   \<and> negamax_boolean row_ops 3 (row_empty 1) Map.empty Map.empty 0 (Some 2)
       = Some (TimeoutError \<lparr>cells = [BLACK], to_play = WHITE\<rparr>
           [([BLACK], WHITE) \<mapsto> (False, None)] Map.empty)
   \<and> code row_ops \<lparr>cells = [BLACK], to_play = WHITE\<rparr> \<noteq> code row_ops (row_empty 1)"
  using row3_abort row1_abort by (simp add: row_ops_def row_code_def row_empty_def)

text \<open>
  C5, amended. The applied move is undone once the recursive call has returned and the loop
  has reached \<^verbatim>\<open>undoMove\<close>. On a board that honours \<^verbatim>\<open>undoMove\<close>, when the recursive call
  below a legal move returns and no alarm fires before \<^verbatim>\<open>undoMove\<close> runs, the board is again
  the board before the move, and whatever the iteration does next (an abort at a later
  point, the next candidate, storing and returning the win) it does on that board; and a
  call that returns leaves the board as it found it. When the recursive call is aborted by
  \<^verbatim>\<open>TimeoutError\<close>, the exception leaves the loop at once with the board as the abort left
  it; when the alarm fires after the recursive call has returned and before \<^verbatim>\<open>undoMove\<close>
  runs, it leaves the loop with the move still applied.
\<close>

theorem undo_on_normal_return_only:
  shows "(board_ok ops valid rank \<and> valid b \<and> m \<in> set (legal ops b)
            \<and> negamax_boolean ops fuel (play ops b m) tt ht (d + 1) a = Some (Return res b1 t1 h1 a1)
            \<and> \<not> fired a1
          \<longrightarrow> b1 = play ops b m \<and> undoMove ops b1 m = b
              \<and> negamax_loop ops fuel (m # ms) b tt ht d a =
                  (if fired (tick a1) then Some (TimeoutError b t1 h1)
                   else if fst res then negamax_loop ops fuel ms b t1 h1 d (tick a1)
                   else if fired (tick (tick a1)) then Some (TimeoutError b t1 (hh_update h1 m d))
                   else Some (Return (True, Some m) b (tt_store t1 (code ops b) True (Some m))
                                (hh_update h1 m d) (tick (tick (tick a1))))))
       \<and> (board_ok ops valid rank \<and> valid b
            \<and> negamax_boolean ops fuel b tt ht d a = Some (Return res b' t' h' a')
          \<longrightarrow> b' = b)
       \<and> (negamax_boolean ops fuel (play ops b m) tt ht (d + 1) a = Some (TimeoutError b2 t2 h2)
          \<longrightarrow> negamax_loop ops fuel (m # ms) b tt ht d a = Some (TimeoutError b2 t2 h2))
       \<and> (board_ok ops valid rank \<and> valid b \<and> m \<in> set (legal ops b)
            \<and> negamax_boolean ops fuel (play ops b m) tt ht (d + 1) a = Some (Return res b1 t1 h1 a1)
            \<and> fired a1
          \<longrightarrow> negamax_loop ops fuel (m # ms) b tt ht d a = Some (TimeoutError (play ops b m) t1 h1))"
proof (intro conjI impI)
  assume p: "board_ok ops valid rank \<and> valid b \<and> m \<in> set (legal ops b)
     \<and> negamax_boolean ops fuel (play ops b m) tt ht (d + 1) a = Some (Return res b1 t1 h1 a1)
     \<and> \<not> fired a1"
  then have c: "valid (play ops b m)" "undoMove ops (play ops b m) m = b"
    unfolding board_ok_def by auto
  show b1: "b1 = play ops b m"
    using negamax_restores_board [of ops fuel "play ops b m" tt ht "d + 1" a _ valid rank] p c(1)
    by simp
  show u: "undoMove ops b1 m = b" using b1 c(2) by simp
  have r: "negamax_boolean ops fuel (play ops b m) tt ht (d + 1) a = Some (Return res b1 t1 h1 a1)"
    and nf: "\<not> fired a1"
    using p by simp_all
  show "negamax_loop ops fuel (m # ms) b tt ht d a =
      (if fired (tick a1) then Some (TimeoutError b t1 h1)
       else if fst res then negamax_loop ops fuel ms b t1 h1 d (tick a1)
       else if fired (tick (tick a1)) then Some (TimeoutError b t1 (hh_update h1 m d))
       else Some (Return (True, Some m) b (tt_store t1 (code ops b) True (Some m))
                    (hh_update h1 m d) (tick (tick (tick a1)))))"
    using r nf u by (simp add: Let_def store_result_def)
next
  assume "board_ok ops valid rank \<and> valid b
     \<and> negamax_boolean ops fuel b tt ht d a = Some (Return res b' t' h' a')"
  then show "b' = b" using negamax_restores_board [of ops fuel b tt ht d a _ valid rank] by simp
next
  assume "negamax_boolean ops fuel (play ops b m) tt ht (d + 1) a = Some (TimeoutError b2 t2 h2)"
  then show "negamax_loop ops fuel (m # ms) b tt ht d a = Some (TimeoutError b2 t2 h2)" by simp
next
  assume p: "board_ok ops valid rank \<and> valid b \<and> m \<in> set (legal ops b)
     \<and> negamax_boolean ops fuel (play ops b m) tt ht (d + 1) a = Some (Return res b1 t1 h1 a1)
     \<and> fired a1"
  then have c: "valid (play ops b m)" unfolding board_ok_def by auto
  have b1: "b1 = play ops b m"
    using negamax_restores_board [of ops fuel "play ops b m" tt ht "d + 1" a _ valid rank] p c
    by simp
  show "negamax_loop ops fuel (m # ms) b tt ht d a = Some (TimeoutError (play ops b m) t1 h1)"
    using p b1 by simp
qed

theorem undo_on_normal_return_only_witness:
  "board_ok row_ops row_valid row_rank \<and> row_valid (row_empty 1)
   \<and> 0 \<in> set (legal row_ops (row_empty 1))
   \<and> negamax_boolean row_ops 1 (play row_ops (row_empty 1) 0) Map.empty Map.empty (0 + 1) None
       = Some (Return (False, None) \<lparr>cells = [BLACK], to_play = WHITE\<rparr>
           [([BLACK], WHITE) \<mapsto> (False, None)] Map.empty None)
   \<and> \<not> fired None
   \<and> undoMove row_ops \<lparr>cells = [BLACK], to_play = WHITE\<rparr> 0 = row_empty 1
   \<and> negamax_loop row_ops 1 [0] (row_empty 1) Map.empty Map.empty 0 None
       = Some (Return (True, Some 0) (row_empty 1)
           [([BLACK], WHITE) \<mapsto> (False, None), ([EMPTY], BLACK) \<mapsto> (True, Some 0)]
           [0 \<mapsto> 0] None)
   \<and> negamax_boolean row_ops 1 (play row_ops (row_empty 3) 0) Map.empty Map.empty (0 + 1) (Some 0)
       = Some (TimeoutError \<lparr>cells = [BLACK, EMPTY, EMPTY], to_play = WHITE\<rparr> Map.empty Map.empty)
   \<and> negamax_loop row_ops 1 [0, 1, 2] (row_empty 3) Map.empty Map.empty 0 (Some 0)
       = Some (TimeoutError \<lparr>cells = [BLACK, EMPTY, EMPTY], to_play = WHITE\<rparr> Map.empty Map.empty)
   \<and> negamax_boolean row_ops 1 (play row_ops (row_empty 1) 0) Map.empty Map.empty (0 + 1) (Some 1)
       = Some (Return (False, None) \<lparr>cells = [BLACK], to_play = WHITE\<rparr>
           [([BLACK], WHITE) \<mapsto> (False, None)] Map.empty (Some 0))
   \<and> fired (Some 0)
   \<and> negamax_loop row_ops 1 [0] (row_empty 1) Map.empty Map.empty 0 (Some 1)
       = Some (TimeoutError \<lparr>cells = [BLACK], to_play = WHITE\<rparr>
           [([BLACK], WHITE) \<mapsto> (False, None)] Map.empty)"
proof -
  let ?T = "[([BLACK], WHITE) \<mapsto> (False, None)] :: (color list \<times> color) transposition_table"
  let ?B = "\<lparr>cells = [BLACK], to_play = WHITE\<rparr>"
  have l: "0 \<in> set (legal row_ops (row_empty 1))"
    by (simp add: row_defs)
  have n: "negamax_boolean row_ops 1 (play row_ops (row_empty 1) 0) Map.empty Map.empty (0 + 1) None
       = Some (Return (False, None) ?B ?T Map.empty None)"
    by (simp add: row_defs solver_defs)
  have n1: "negamax_boolean row_ops 1 (play row_ops (row_empty 1) 0) Map.empty Map.empty (0 + 1) (Some 1)
       = Some (Return (False, None) ?B ?T Map.empty (Some 0))"
    by (simp add: row_defs solver_defs)
  have a: "negamax_boolean row_ops 1 (play row_ops (row_empty 3) 0) Map.empty Map.empty (0 + 1) (Some 0)
       = Some (TimeoutError \<lparr>cells = [BLACK, EMPTY, EMPTY], to_play = WHITE\<rparr> Map.empty Map.empty)"
    by (simp add: row_defs solver_defs numeral_nat)
  have f: "\<not> fired None" "fired (Some 0)" by (simp_all add: fired_def)
  have pl: "play row_ops (row_empty 1) 0 = ?B" by (simp add: row_defs)
  have cd: "code row_ops (row_empty 1) = ([EMPTY], BLACK)"
    "code row_ops (row_empty (Suc 0)) = ([EMPTY], BLACK)"
    by (simp_all add: row_defs)
  note inst = undo_on_normal_return_only [where ops = row_ops and valid = row_valid and rank = row_rank
      and fuel = 1 and tt = Map.empty and ht = Map.empty and d = 0]
  have prem: "board_ok row_ops row_valid row_rank \<and> row_valid (row_empty 1)
      \<and> 0 \<in> set (legal row_ops (row_empty 1))
      \<and> negamax_boolean row_ops 1 (play row_ops (row_empty 1) 0) Map.empty Map.empty (0 + 1) None
          = Some (Return (False, None) ?B ?T Map.empty None)
      \<and> \<not> fired None"
    using row_board_ok row_empty_valid l n f(1) by blast
  have step: "?B = play row_ops (row_empty 1) 0 \<and> undoMove row_ops ?B 0 = row_empty 1
      \<and> negamax_loop row_ops 1 [0] (row_empty 1) Map.empty Map.empty 0 None =
          (if fired (tick None) then Some (TimeoutError (row_empty 1) ?T Map.empty)
           else if fst (False, None :: int option)
             then negamax_loop row_ops 1 [] (row_empty 1) ?T Map.empty 0 (tick None)
           else if fired (tick (tick None))
             then Some (TimeoutError (row_empty 1) ?T (hh_update Map.empty 0 0))
           else Some (Return (True, Some 0) (row_empty 1)
                  (tt_store ?T (code row_ops (row_empty 1)) True (Some 0))
                  (hh_update Map.empty 0 0) (tick (tick (tick None)))))"
    by (rule mp [OF conjunct1 [OF inst [where b = "row_empty 1" and m = 0 and a = None
              and ms = "[]" and res = "(False, None)" and ?b1.0 = ?B and ?t1.0 = ?T
              and ?h1.0 = Map.empty and ?a1.0 = None]] prem])
  have u1: "undoMove row_ops ?B 0 = row_empty 1" using step by blast
  have u2: "negamax_loop row_ops 1 [0] (row_empty 1) Map.empty Map.empty 0 None
          = Some (Return (True, Some 0) (row_empty 1) (?T(([EMPTY], BLACK) \<mapsto> (True, Some 0)))
              [0 \<mapsto> 0] None)"
    using conjunct2 [OF conjunct2 [OF step]]
    by (simp add: fired_def tick_def cd tt_store_def hh_update_def
        del: negamax_boolean.simps negamax_loop.simps)
  have p: "negamax_loop row_ops 1 [0, 1, 2] (row_empty 3) Map.empty Map.empty 0 (Some 0)
       = Some (TimeoutError \<lparr>cells = [BLACK, EMPTY, EMPTY], to_play = WHITE\<rparr> Map.empty Map.empty)"
    using inst [where b = "row_empty 3" and m = 0 and a = "Some 0" and ms = "[1, 2]",
        THEN conjunct2, THEN conjunct2, THEN conjunct1] a by blast
  have prem2: "board_ok row_ops row_valid row_rank \<and> row_valid (row_empty 1)
      \<and> 0 \<in> set (legal row_ops (row_empty 1))
      \<and> negamax_boolean row_ops 1 (play row_ops (row_empty 1) 0) Map.empty Map.empty (0 + 1) (Some 1)
          = Some (Return (False, None) ?B ?T Map.empty (Some 0))
      \<and> fired (Some 0)"
    using row_board_ok row_empty_valid l n1 f(2) by blast
  have "negamax_loop row_ops 1 [0] (row_empty 1) Map.empty Map.empty 0 (Some 1)
       = Some (TimeoutError (play row_ops (row_empty 1) 0) ?T Map.empty)"
    by (rule mp [OF conjunct2 [OF conjunct2 [OF conjunct2 [OF inst [where b = "row_empty 1"
              and m = 0 and a = "Some 1" and ms = "[]" and res = "(False, None)" and ?b1.0 = ?B
              and ?t1.0 = ?T and ?h1.0 = Map.empty and ?a1.0 = "Some 0"]]]] prem2])
  then have q: "negamax_loop row_ops 1 [0] (row_empty 1) Map.empty Map.empty 0 (Some 1)
       = Some (TimeoutError ?B ?T Map.empty)"
    unfolding pl .
  show ?thesis using row_board_ok row_empty_valid l n f u1 u2 a p n1 q by blast
qed

text \<open>
  C6. When a call of the solver has returned, a second call on the board as the first
  one left it, with the tables as the first one left them, returns the same
  \<^verbatim>\<open>(solved, move)\<close>. It does so at any depth and with fuel for a single call, so
  without a nested call: the lookup answers it, and the board and both tables stay as
  they are. On a board that honours \<^verbatim>\<open>undoMove\<close> the board the first call leaves is the
  board it was given.
\<close>

theorem second_call_hits:
  assumes "negamax_boolean ops fuel b tt ht d a = Some (Return res b' tt' ht' a')"
  shows "negamax_boolean ops (Suc fuel2) b' tt' ht' d2 None = Some (Return res b' tt' ht' None)
       \<and> (board_ok ops valid rank \<and> valid b \<longrightarrow> b' = b)"
  using negamax_return_stored [OF assms] negamax_restores_board [OF assms, of valid rank]
  by simp

theorem second_call_hits_witness:
  "negamax_boolean row_ops (Suc (Suc 0)) (row_empty 1) Map.empty Map.empty 0 None
     = Some (Return (True, Some 0) (row_empty 1)
         [([BLACK], WHITE) \<mapsto> (False, None), ([EMPTY], BLACK) \<mapsto> (True, Some 0)]
         [0 \<mapsto> 0] None)
   \<and> negamax_boolean row_ops (Suc 0) (row_empty 1)
         [([BLACK], WHITE) \<mapsto> (False, None), ([EMPTY], BLACK) \<mapsto> (True, Some 0)]
         [0 \<mapsto> 0] 7 None
     = Some (Return (True, Some 0) (row_empty 1)
         [([BLACK], WHITE) \<mapsto> (False, None), ([EMPTY], BLACK) \<mapsto> (True, Some 0)]
         [0 \<mapsto> 0] None)"
proof -
  have first: "negamax_boolean row_ops (Suc (Suc 0)) (row_empty 1) Map.empty Map.empty 0 None
     = Some (Return (True, Some 0) (row_empty 1)
         [([BLACK], WHITE) \<mapsto> (False, None), ([EMPTY], BLACK) \<mapsto> (True, Some 0)]
         [0 \<mapsto> 0] None)"
    by (simp add: row_defs solver_defs)
  have second: "negamax_boolean row_ops (Suc 0) (row_empty 1)
         [([BLACK], WHITE) \<mapsto> (False, None), ([EMPTY], BLACK) \<mapsto> (True, Some 0)]
         [0 \<mapsto> 0] 7 None
     = Some (Return (True, Some 0) (row_empty 1)
         [([BLACK], WHITE) \<mapsto> (False, None), ([EMPTY], BLACK) \<mapsto> (True, Some 0)]
         [0 \<mapsto> 0] None)"
    by (rule conjunct1 [OF second_call_hits [OF first, of 0 7]])
  from first second show ?thesis by (rule conjI)
qed

text \<open>
  C7, as stated, fails in its last part: \<^verbatim>\<open>update\<close> runs before the call stores and returns
  the move, and the alarm can fire in between. On the row of one cell, at depth 3, with the
  alarm firing at the fifth interruption point, the score of move 0 has grown from 0 to 9
  when the exception leaves the solver; no call has returned move 0, and the table has no
  entry for the position it was found in.
\<close>

theorem history_update_without_return:
  "negamax_boolean row_ops 2 (row_empty 1) Map.empty Map.empty 3 (Some 4)
     = Some (TimeoutError (row_empty 1) [([BLACK], WHITE) \<mapsto> (False, None)] [0 \<mapsto> 9])
   \<and> hh_lookup Map.empty 0 = 0
   \<and> hh_lookup [0 \<mapsto> 9] 0 = 9
   \<and> [([BLACK], WHITE) \<mapsto> (False, None :: int option)] (code row_ops (row_empty 1)) = None"
  by (simp add: row_defs solver_defs numeral_nat)

text \<open>
  C7, amended. The history table only grows. \<^verbatim>\<open>lookup\<close> of a move without an entry is 0;
  \<^verbatim>\<open>update(m, depth)\<close> creates the entry \<^verbatim>\<open>depth**2\<close> or adds \<^verbatim>\<open>depth**2\<close> to it, so the
  score of \<open>m\<close> grows by \<^verbatim>\<open>depth**2\<close>, no score of another move changes downwards and no
  entry disappears. Over any run of the solver, returned or aborted, the table afterwards
  is above the table before. And \<^verbatim>\<open>update\<close> happens only for a move found to be winning:
  after a call that returns (on a board that honours \<^verbatim>\<open>undoMove\<close>, ends every game and
  codes positions apart), every move whose entry changed is the move of a new table entry
  with flag \<^verbatim>\<open>True\<close>, that is, the result some call returned. After any run from a
  table whose entries are right, returned or aborted, every move whose entry changed is a
  legal winning move of some position of the game.
\<close>

theorem history_scores_only_grow:
  shows "(h m = None \<longrightarrow> hh_lookup h m = 0 \<and> hh_update h m dep = h(m \<mapsto> dep ^ 2))
       \<and> (\<forall>v. h m = Some v \<longrightarrow> hh_update h m dep = h(m \<mapsto> v + dep ^ 2))
       \<and> hh_lookup (hh_update h m dep) m = hh_lookup h m + dep ^ 2
       \<and> hh_lookup h m' \<le> hh_lookup (hh_update h m dep) m'
       \<and> dom h \<subseteq> dom (hh_update h m dep)
       \<and> (negamax_boolean ops fuel b tt ht d a = Some out \<longrightarrow> hist_le ht (outcome_ht out))
       \<and> (board_ok ops valid rank \<and> code_inj ops valid \<and> valid b
            \<and> negamax_boolean ops fuel b tt ht d a = Some (Return res b' tt' ht' a')
          \<longrightarrow> (\<forall>mv. ht' mv \<noteq> ht mv \<longrightarrow> (\<exists>c. tt c = None \<and> tt' c = Some (True, Some mv))))
       \<and> (board_ok ops valid rank \<and> code_inj ops valid \<and> valid b \<and> tt_sound ops valid tt
            \<and> negamax_boolean ops fuel b tt ht d a = Some out
          \<longrightarrow> only_winning_moves ops valid ht (outcome_ht out))"
proof (intro conjI impI allI)
  assume "h m = None"
  then show "hh_lookup h m = 0" by (simp add: hh_lookup_def)
next
  assume "h m = None"
  then show "hh_update h m dep = h(m \<mapsto> dep ^ 2)" by (simp add: hh_update_def)
next
  fix v assume "h m = Some v"
  then show "hh_update h m dep = h(m \<mapsto> v + dep ^ 2)" by (simp add: hh_update_def)
next
  show "hh_lookup (hh_update h m dep) m = hh_lookup h m + dep ^ 2"
    by (rule hh_lookup_update_same)
next
  show "hh_lookup h m' \<le> hh_lookup (hh_update h m dep) m'"
    using hist_le_update [of h m dep] by (simp add: hist_le_def)
next
  show "dom h \<subseteq> dom (hh_update h m dep)"
    using hist_le_update [of h m dep] by (simp add: hist_le_def)
next
  assume "negamax_boolean ops fuel b tt ht d a = Some out"
  then show "hist_le ht (outcome_ht out)" by (rule negamax_hist_le)
next
  fix mv
  assume p: "board_ok ops valid rank \<and> code_inj ops valid \<and> valid b
    \<and> negamax_boolean ops fuel b tt ht d a = Some (Return res b' tt' ht' a')"
    and d: "ht' mv \<noteq> ht mv"
  from p have "negamax_boolean ops fuel b tt ht d a = Some (Return res b' tt' ht' a')"
    by simp
  then have "negamax_run ops b tt ht d a (Return res b' tt' ht' a')"
    by (rule negamax_boolean_run)
  then have "recorded tt tt' ht ht'"
    using run_recorded(1) [of ops b tt ht d a _ valid rank res b' tt' ht' a'] p by simp
  then show "\<exists>c. tt c = None \<and> tt' c = Some (True, Some mv)"
    using d unfolding recorded_def by blast
next
  assume p: "board_ok ops valid rank \<and> code_inj ops valid \<and> valid b \<and> tt_sound ops valid tt
    \<and> negamax_boolean ops fuel b tt ht d a = Some out"
  then have "negamax_boolean ops fuel b tt ht d a = Some out" by simp
  then have r: "negamax_run ops b tt ht d a out" by (rule negamax_boolean_run)
  show "only_winning_moves ops valid ht (outcome_ht out)"
    using run_only_winning_moves(1) [OF r, of valid rank] p by simp
qed

theorem history_scores_only_grow_witness:
  "board_ok row_ops row_valid row_rank \<and> code_inj row_ops row_valid \<and> row_valid (row_empty 1)
   \<and> tt_sound row_ops row_valid Map.empty
   \<and> negamax_boolean row_ops 2 (row_empty 1) Map.empty Map.empty 2 None
       = Some (Return (True, Some 0) (row_empty 1)
           [([BLACK], WHITE) \<mapsto> (False, None), ([EMPTY], BLACK) \<mapsto> (True, Some 0)]
           [0 \<mapsto> 4] None)
   \<and> hist_le Map.empty [0 \<mapsto> 4]
   \<and> hh_lookup Map.empty 0 = 0 \<and> hh_update Map.empty 0 2 = [0 \<mapsto> 2 ^ 2]
   \<and> (\<exists>c. (Map.empty :: (color list \<times> color) transposition_table) c = None
         \<and> [([BLACK], WHITE) \<mapsto> (False, None), ([EMPTY], BLACK) \<mapsto> (True, Some 0)] c
             = Some (True, Some (0::int)))
   \<and> (\<exists>b. row_valid b \<and> 0 \<in> set (legal row_ops b) \<and> \<not> wins row_ops (play row_ops b 0))"
proof -
  let ?T = "[([BLACK], WHITE) \<mapsto> (False, None), ([EMPTY], BLACK) \<mapsto> (True, Some (0::int))]"
  have e: "negamax_boolean row_ops 2 (row_empty 1) Map.empty Map.empty 2 None
       = Some (Return (True, Some 0) (row_empty 1) ?T [0 \<mapsto> 4] None)"
    by (simp add: row_defs solver_defs numeral_nat)
  have s: "tt_sound row_ops row_valid Map.empty" by (rule tt_sound_empty)
  note inst = history_scores_only_grow [where ops = row_ops and valid = row_valid and rank = row_rank
      and fuel = 2 and b = "row_empty 1" and tt = Map.empty and ht = Map.empty and d = 2
      and a = None and h = Map.empty and m = 0 and dep = 2]
  have h1: "hist_le Map.empty [0 \<mapsto> (4::int)]"
    using inst [of _ "Return (True, Some 0) (row_empty 1) ?T [0 \<mapsto> 4] None"] e by simp
  have h2: "hh_lookup Map.empty 0 = 0 \<and> hh_update Map.empty 0 2 = [0 \<mapsto> 2 ^ 2]"
    using inst by simp
  have "\<forall>mv. [0 \<mapsto> (4::int)] mv \<noteq> Map.empty mv \<longrightarrow>
      (\<exists>c. (Map.empty :: (color list \<times> color) transposition_table) c = None
         \<and> ?T c = Some (True, Some mv))"
    using inst [where res = "(True, Some 0)" and b' = "row_empty 1" and tt' = ?T
        and ht' = "[0 \<mapsto> 4]" and a' = None, THEN conjunct2, THEN conjunct2, THEN conjunct2,
        THEN conjunct2, THEN conjunct2, THEN conjunct2, THEN conjunct1]
      row_board_ok row_code_inj row_empty_valid e by blast
  then have h3: "\<exists>c. (Map.empty :: (color list \<times> color) transposition_table) c = None
         \<and> ?T c = Some (True, Some (0::int))"
    by (metis fun_upd_same option.distinct(1))
  have "only_winning_moves row_ops row_valid Map.empty
          (outcome_ht (Return (True, Some 0) (row_empty 1) ?T [0 \<mapsto> 4] None))"
    using inst [where out = "Return (True, Some 0) (row_empty 1) ?T [0 \<mapsto> 4] None",
        THEN conjunct2, THEN conjunct2, THEN conjunct2,
        THEN conjunct2, THEN conjunct2, THEN conjunct2, THEN conjunct2]
      row_board_ok row_code_inj row_empty_valid s e by blast
  then have h4: "\<exists>b. row_valid b \<and> 0 \<in> set (legal row_ops b) \<and> \<not> wins row_ops (play row_ops b 0)"
    unfolding only_winning_moves_def by (simp del: set_upt) 
  show ?thesis using row_board_ok row_code_inj row_empty_valid s e h1 h2 h3 h4 by blast
qed

text \<open>
  C8. \<^verbatim>\<open>genmove\<close> is to respond with the solver's winning move when that move is legal for
  the requested colour, and with \<^verbatim>\<open>resign\<close> otherwise. The command formats the solver's move
  before it tests its legality, and \<^verbatim>\<open>format_point\<close> refuses a row or column equal to
  \<^verbatim>\<open>MAXSIZE\<close>, which \<^verbatim>\<open>move_to_coord\<close> of the same module accepts (board sizes up to
  \<^verbatim>\<open>MAXSIZE\<close>, coordinates in \<^verbatim>\<open>1 .. board_size\<close>). So when the solver returns a winning move
  that is legal for the requested colour and lies in row or column \<^verbatim>\<open>MAXSIZE\<close>, the command
  raises \<^verbatim>\<open>ValueError\<close>: it responds neither with the move nor with \<^verbatim>\<open>resign\<close>. This happens
  on a board of size 25, with \<^verbatim>\<open>MAXSIZE\<close> 25 and \<^verbatim>\<open>BLACK\<close> to move, where the only legal move
  is the point 651 (row 25, column 1) and wins the game, at \<^verbatim>\<open>genmove b\<close>.
\<close>

theorem genmove_raises_on_last_row:
  assumes a: "args = arg0 # rest" and col: "color_to_int (lower arg0) = Inr color"
    and t: "self_tt self (board_size ops (self_board self)) = Some t"
    and h: "self_history_heuristic self (board_size ops (self_board self)) = Some h"
    and r: "negamax_boolean ops fuel (self_board self) t h 0 None
              = Some (Return (True, Some m) b' t' h' a')"
    and lg: "is_legal ops b' m color"
    and np: "Some m \<noteq> PASS ops" and ns: "board_size ops b' + 1 \<noteq> 0"
    and last: "m div (board_size ops b' + 1) = MAXSIZE ops
               \<or> m mod (board_size ops b' + 1) = MAXSIZE ops"
  shows "genmove_cmd ops fuel self args
           = Some (Raised ValueError (after_search self (board_size ops (self_board self)) b' t' h'))"
proof -
  have p: "point_to_coord ops m (board_size ops b')
      = Inr (RowCol (m div (board_size ops b' + 1)) (m mod (board_size ops b' + 1)))"
    using np ns by (simp add: point_to_coord_def Let_def)
  have "format_point ops (RowCol (m div (board_size ops b' + 1)) (m mod (board_size ops b' + 1)))
      = Inl ValueError"
    using last by (auto simp: format_point_def)
  then have "move_as_string ops m (board_size ops b') = Inl ValueError"
    using p by (simp add: move_as_string_def)
  then show ?thesis
    using a col t h r by (simp add: genmove_cmd_def Let_def)
qed

theorem genmove_raises_on_last_row_witness:
  "board_size last_row_ops (self_board last_row_conn) = 25
   \<and> MAXSIZE last_row_ops = 25
   \<and> current_player last_row_ops (self_board last_row_conn) = BLACK
   \<and> color_to_int (lower ''b'') = Inr BLACK
   \<and> legal last_row_ops (self_board last_row_conn) = [651]
   \<and> wins last_row_ops (self_board last_row_conn)
   \<and> negamax_boolean last_row_ops 2 (self_board last_row_conn) Map.empty Map.empty 0 None
       = Some (Return (True, Some 651) (self_board last_row_conn)
           [([BLACK], WHITE) \<mapsto> (False, None), ([EMPTY], BLACK) \<mapsto> (True, Some 651)]
           [651 \<mapsto> 0] None)
   \<and> is_legal last_row_ops (self_board last_row_conn) 651 BLACK
   \<and> 651 div (25 + 1) = (25 :: int) \<and> 651 mod (25 + 1) = (1 :: int)
   \<and> genmove_cmd last_row_ops 2 last_row_conn [''b'']
       = Some (Raised ValueError
           (after_search last_row_conn 25 (self_board last_row_conn)
              [([BLACK], WHITE) \<mapsto> (False, None), ([EMPTY], BLACK) \<mapsto> (True, Some 651)]
              [651 \<mapsto> 0]))"
proof -
  let ?T = "[([BLACK], WHITE) \<mapsto> (False, None), ([EMPTY], BLACK) \<mapsto> (True, Some (651::int))]"
  have w: "wins last_row_ops (self_board last_row_conn)"
    using last_row_wins by (simp add: last_row_conn_def)
  have sz: "board_size last_row_ops (self_board last_row_conn) = 25"
    "MAXSIZE last_row_ops = 25" "PASS last_row_ops = None"
    by (simp_all add: last_row_ops_def row_ops_def)
  have cp: "current_player last_row_ops (self_board last_row_conn) = BLACK"
    by (simp add: last_row_ops_def last_row_conn_def row_defs)
  have col: "color_to_int (lower ''b'') = Inr BLACK"
    by (simp add: color_to_int_def lower_def)
  have l: "legal last_row_ops (self_board last_row_conn) = [651]"
    by (simp add: last_row_ops_def last_row_conn_def row_defs)
  have r: "negamax_boolean last_row_ops 2 (self_board last_row_conn) Map.empty Map.empty 0 None
       = Some (Return (True, Some 651) (self_board last_row_conn) ?T [651 \<mapsto> 0] None)"
    by (simp add: last_row_ops_def last_row_conn_def row_defs solver_defs numeral_nat)
  have lg: "is_legal last_row_ops (self_board last_row_conn) 651 BLACK"
    by (simp add: last_row_ops_def last_row_conn_def row_defs)
  have tb: "self_tt last_row_conn (board_size last_row_ops (self_board last_row_conn)) = Some Map.empty"
    "self_history_heuristic last_row_conn (board_size last_row_ops (self_board last_row_conn))
       = Some Map.empty"
    by (simp_all add: sz(1)) (simp_all add: last_row_conn_def)
  have ar: "651 div (25 + 1) = (25 :: int)" "651 mod (25 + 1) = (1 :: int)" by simp_all
  have g: "genmove_cmd last_row_ops 2 last_row_conn [''b'']
       = Some (Raised ValueError
           (after_search last_row_conn 25 (self_board last_row_conn) ?T [651 \<mapsto> 0]))"
    using genmove_raises_on_last_row [OF refl col tb r lg] sz ar by simp
  show ?thesis using sz(1,2) cp col l w r lg ar g by blast
qed

text \<open>
  C9, as stated, fails: the solver discards what \<^verbatim>\<open>play_move\<close> returns. On a board that
  enumerates the move 0 and then rejects it, leaving the board unchanged, the search does
  not go on to the next candidate (here: to the end of the loop and the result
  \<^verbatim>\<open>(False, None)\<close>); it recurses on the unchanged board and never returns, whatever the
  fuel. With an alarm armed, the run ends by the alarm, with nothing stored.
\<close>

theorem rejected_move_not_detected:
  "legal reject_ops (row_empty 1) = [0]
   \<and> play_move reject_ops (row_empty 1) 0 (current_player reject_ops (row_empty 1))
       = (False, row_empty 1)
   \<and> (\<forall>fuel. negamax_loop reject_ops fuel [0] (row_empty 1) Map.empty Map.empty 0 None = None)
   \<and> (\<forall>fuel. negamax_boolean reject_ops fuel (row_empty 1) Map.empty Map.empty 0 None = None)
   \<and> negamax_boolean reject_ops 4 (row_empty 1) Map.empty Map.empty 0 (Some 2)
       = Some (TimeoutError (row_empty 1) Map.empty Map.empty)
   \<and> negamax_loop reject_ops 0 [] (row_empty 1) Map.empty Map.empty 0 None
       = Some (Return (False, None) (row_empty 1) [([EMPTY], BLACK) \<mapsto> (False, None)]
           Map.empty None)"
proof -
  have t: "negamax_boolean reject_ops 4 (row_empty 1) Map.empty Map.empty 0 (Some 2)
       = Some (TimeoutError (row_empty 1) Map.empty Map.empty)"
    by (simp add: reject_ops_def row_defs solver_defs numeral_nat)
  have l: "legal reject_ops (row_empty 1) = [0]"
    by (simp add: reject_ops_def row_defs)
  have p: "play_move reject_ops (row_empty 1) 0 (current_player reject_ops (row_empty 1))
       = (False, row_empty 1)"
    by (simp add: reject_ops_def row_defs)
  have n: "negamax_loop reject_ops fuel [0] (row_empty 1) Map.empty Map.empty 0 None = None" for fuel
    using reject_never_returns [of fuel "0 + 1"] p by simp
  have e: "negamax_loop reject_ops 0 [] (row_empty 1) Map.empty Map.empty 0 None
       = Some (Return (False, None) (row_empty 1) [([EMPTY], BLACK) \<mapsto> (False, None)]
           Map.empty None)"
    by (simp add: reject_ops_def row_defs solver_defs)
  show ?thesis using l p n t e reject_never_returns by blast
qed

text \<open>
  C9, amended. The solver does not look at the flag \<^verbatim>\<open>play_move\<close> returns: with any other
  flag and the same boards it computes the same. Its candidates are the moves the board
  enumerates as legal; each is applied, searched and undone. When the search below a
  candidate returns a win for the opponent (and no alarm fires), the loop goes on with the
  remaining candidates from the board \<^verbatim>\<open>undoMove\<close> leaves, which on a board that honours
  \<^verbatim>\<open>undoMove\<close> is the board before the candidate was applied.
\<close>

theorem solver_ignores_apply_flag:
  shows "negamax_boolean (ops\<lparr>play_move := (\<lambda>b m c. (flag b m c, snd (play_move ops b m c)))\<rparr>)
           fuel b tt ht d a
         = negamax_boolean ops fuel b tt ht d a
       \<and> (negamax_boolean ops fuel (play ops b m) tt ht (d + 1) a = Some (Return res b1 t1 h1 a1)
            \<and> fst res \<and> \<not> fired a1 \<and> \<not> fired (tick a1)
          \<longrightarrow> negamax_loop ops fuel (m # ms) b tt ht d a
              = negamax_loop ops fuel ms (undoMove ops b1 m) t1 h1 d (tick a1))
       \<and> (board_ok ops valid rank \<and> valid b \<and> m \<in> set (legal ops b)
            \<and> negamax_boolean ops fuel (play ops b m) tt ht (d + 1) a = Some (Return res b1 t1 h1 a1)
          \<longrightarrow> undoMove ops b1 m = b)"
proof (intro conjI impI)
  show "negamax_boolean (ops\<lparr>play_move := (\<lambda>b m c. (flag b m c, snd (play_move ops b m c)))\<rparr>)
           fuel b tt ht d a = negamax_boolean ops fuel b tt ht d a"
    by (rule negamax_ignores_flag)
next
  assume "negamax_boolean ops fuel (play ops b m) tt ht (d + 1) a = Some (Return res b1 t1 h1 a1)
            \<and> fst res \<and> \<not> fired a1 \<and> \<not> fired (tick a1)"
  then show "negamax_loop ops fuel (m # ms) b tt ht d a
              = negamax_loop ops fuel ms (undoMove ops b1 m) t1 h1 d (tick a1)"
    by (simp add: Let_def)
next
  assume p: "board_ok ops valid rank \<and> valid b \<and> m \<in> set (legal ops b)
     \<and> negamax_boolean ops fuel (play ops b m) tt ht (d + 1) a = Some (Return res b1 t1 h1 a1)"
  then have c: "valid (play ops b m)" "undoMove ops (play ops b m) m = b"
    unfolding board_ok_def by auto
  have "b1 = play ops b m"
    using negamax_restores_board [of ops fuel "play ops b m" tt ht "d + 1" a _ valid rank] p c(1)
    by simp
  then show "undoMove ops b1 m = b" using c(2) by simp
qed

theorem solver_ignores_apply_flag_witness:
  "negamax_boolean (row_ops\<lparr>play_move := (\<lambda>b m c. (False, snd (play_move row_ops b m c)))\<rparr>)
       4 (row_empty 3) Map.empty Map.empty 0 None
     = negamax_boolean row_ops 4 (row_empty 3) Map.empty Map.empty 0 None
   \<and> board_ok row_ops row_valid row_rank \<and> row_valid (row_empty 3)
   \<and> 0 \<in> set (legal row_ops (row_empty 3))
   \<and> (\<exists>t1 h1.
         negamax_boolean row_ops 3 (play row_ops (row_empty 3) 0) Map.empty Map.empty (0 + 1) None
           = Some (Return (True, Some 2) \<lparr>cells = [BLACK, EMPTY, EMPTY], to_play = WHITE\<rparr>
               t1 h1 None)
       \<and> negamax_loop row_ops 3 [0, 1, 2] (row_empty 3) Map.empty Map.empty 0 None
           = negamax_loop row_ops 3 [1, 2]
               (undoMove row_ops \<lparr>cells = [BLACK, EMPTY, EMPTY], to_play = WHITE\<rparr> 0) t1 h1 0 None
       \<and> undoMove row_ops \<lparr>cells = [BLACK, EMPTY, EMPTY], to_play = WHITE\<rparr> 0 = row_empty 3)"
proof -
  let ?B = "\<lparr>cells = [BLACK, EMPTY, EMPTY], to_play = WHITE\<rparr>"
  note inst = solver_ignores_apply_flag [where ops = row_ops and valid = row_valid
      and rank = row_rank and tt = Map.empty and ht = Map.empty and d = 0 and a = None
      and b = "row_empty 3"]
  have flag: "negamax_boolean
       (row_ops\<lparr>play_move := (\<lambda>b m c. (False, snd (play_move row_ops b m c)))\<rparr>)
       4 (row_empty 3) Map.empty Map.empty 0 None
     = negamax_boolean row_ops 4 (row_empty 3) Map.empty Map.empty 0 None"
    by (rule inst [where flag = "\<lambda>b m c. False" and fuel = 4, THEN conjunct1])
  have l: "0 \<in> set (legal row_ops (row_empty 3))"
    by (simp add: row_defs upt_rec numeral_nat)
  obtain t1 h1 where
    r: "negamax_boolean row_ops 3 (play row_ops (row_empty 3) 0) Map.empty Map.empty (0 + 1) None
           = Some (Return (True, Some 2) ?B t1 h1 None)"
    using row3_after_0 by blast
  have step: "negamax_loop row_ops 3 (0 # [1, 2]) (row_empty 3) Map.empty Map.empty 0 None
           = negamax_loop row_ops 3 [1, 2] (undoMove row_ops ?B 0) t1 h1 0 (tick None)"
    using inst [where fuel = 3 and m = 0 and ms = "[1, 2]" and res = "(True, Some 2)"
        and ?b1.0 = ?B and ?t1.0 = t1 and ?h1.0 = h1 and ?a1.0 = None,
        THEN conjunct2, THEN conjunct1] r
    by simp
  have undo: "undoMove row_ops ?B 0 = row_empty 3"
    using inst [where fuel = 3 and m = 0 and res = "(True, Some 2)"
        and ?b1.0 = ?B and ?t1.0 = t1 and ?h1.0 = h1 and ?a1.0 = None,
        THEN conjunct2, THEN conjunct2] r l row_board_ok row_empty_valid
    by blast
  show ?thesis
    using flag row_board_ok row_empty_valid l r step undo by auto
qed

text \<open>
  C10, as stated, fails where the requested colour is not the player to move. The solver
  searches for the player to move, \<^verbatim>\<open>genmove\<close> plays the move it found for the requested
  colour. On the row of three empty cells with \<^verbatim>\<open>BLACK\<close> to move, \<^verbatim>\<open>genmove w\<close> responds with
  the move \<^verbatim>\<open>a0\<close> and puts a \<^verbatim>\<open>WHITE\<close> stone on the board, after which the player to move is
  the opponent of \<^verbatim>\<open>WHITE\<close>: \<^verbatim>\<open>BLACK\<close>, as before the call. The position differs, the player
  to move does not.
\<close>

theorem genmove_for_other_colour_keeps_turn:
  "current_player row_ops (self_board (row_conn 3)) = BLACK
   \<and> color_to_int (lower (hd [''w''])) = Inr WHITE
   \<and> (case genmove_cmd row_ops 4 (row_conn 3) [''w''] of
        Some (Responded r self') \<Rightarrow>
          r = ''a0''
          \<and> self_board self' = \<lparr>cells = [EMPTY, WHITE, EMPTY], to_play = BLACK\<rparr>
          \<and> code row_ops (self_board self') \<noteq> code row_ops (self_board (row_conn 3))
          \<and> current_player row_ops (self_board self')
              = current_player row_ops (self_board (row_conn 3))
      | _ \<Rightarrow> False)"
proof -
  have c: "current_player row_ops (self_board (row_conn 3)) = BLACK"
    by (simp add: row_conn_tables row_defs)
  have col: "color_to_int (lower (hd [''w''])) = Inr WHITE"
    by (simp add: color_to_int_def lower_def)
  obtain self' where g: "genmove_cmd row_ops 4 (row_conn 3) [''w''] = Some (Responded ''a0'' self')"
    and b: "self_board self' = \<lparr>cells = [EMPTY, WHITE, EMPTY], to_play = BLACK\<rparr>"
    using row3_genmove_white by blast
  have t: "current_player row_ops (self_board self')
      = current_player row_ops (self_board (row_conn 3))"
    using b c by (simp add: row_ops_def)
  have k: "code row_ops (self_board self') \<noteq> code row_ops (self_board (row_conn 3))"
    using b by (simp add: row_conn_tables row_defs numeral_nat)
  show ?thesis using c col g b t k by simp
qed

text \<open>
  C10, amended. When \<^verbatim>\<open>genmove\<close> responds, either the response is \<^verbatim>\<open>resign\<close> and the board is the board
  before the call, or it is the formatted move and the board is the one \<^verbatim>\<open>play_move\<close> leaves
  after that move is played for the requested colour on the board before the call. On a
  board where a legal play changes the code, the code afterwards differs from the code
  before; where a play of the player to move hands the turn over and the requested colour
  is the player to move, the player to move differs too.
\<close>

theorem genmove_plays_the_move:
  assumes ok: "board_ok ops valid rank" and v: "valid (self_board self)"
    and cc: "legal_play_changes_code ops valid" and pt: "legal_play_passes_turn ops valid"
    and g: "genmove_cmd ops fuel self args = Some (Responded r self')"
  shows "(r = ''resign'' \<and> self_board self' = self_board self)
       \<or> (\<exists>m str color. color_to_int (lower (hd args)) = Inr color
             \<and> is_legal ops (self_board self) m color
             \<and> move_as_string ops m (board_size ops (self_board self)) = Inr str
             \<and> r = lower str
             \<and> self_board self' = snd (play_move ops (self_board self) m color)
             \<and> code ops (self_board self') \<noteq> code ops (self_board self)
             \<and> (color = current_player ops (self_board self) \<longrightarrow>
                  current_player ops (self_board self') \<noteq> current_player ops (self_board self)))"
proof -
  let ?b = "self_board self"
  let ?sz = "board_size ops ?b"
  from g obtain arg0 rest where a: "args = arg0 # rest"
    by (cases args) (simp_all add: genmove_cmd_def)
  from g a obtain color where col: "color_to_int (lower arg0) = Inr color"
    by (cases "color_to_int (lower arg0)") (simp_all add: genmove_cmd_def)
  from g a col obtain t where t: "self_tt self ?sz = Some t"
    by (cases "self_tt self ?sz") (simp_all add: genmove_cmd_def Let_def)
  from g a col t obtain h where h: "self_history_heuristic self ?sz = Some h"
    by (cases "self_history_heuristic self ?sz") (simp_all add: genmove_cmd_def Let_def)
  from g a col t h obtain out where o: "negamax_boolean ops fuel ?b t h 0 None = Some out"
    by (cases "negamax_boolean ops fuel ?b t h 0 None") (simp_all add: genmove_cmd_def Let_def)
  then obtain res b1 t1 h1 where out: "out = Return res b1 t1 h1 None"
    using negamax_no_alarm [OF o] by auto
  have b1: "b1 = ?b" using negamax_restores_board [OF o ok] v out by simp
  let ?self1 = "after_search self ?sz ?b t1 h1"
  show ?thesis
  proof (cases "snd res")
    case None
    then have "r = ''resign'' \<and> self' = ?self1"
      using g a col t h o out b1 by (simp add: genmove_cmd_def Let_def)
    then show ?thesis by (simp add: after_search_def)
  next
    case (Some m)
    show ?thesis
    proof (cases "move_as_string ops m ?sz")
      case (Inl e)
      then show ?thesis using g a col t h o out b1 Some by (simp add: genmove_cmd_def Let_def)
    next
      case (Inr str)
      show ?thesis
      proof (cases "is_legal ops ?b m color")
        case False
        then have "r = ''resign'' \<and> self' = ?self1"
          using g a col t h o out b1 Some Inr by (simp add: genmove_cmd_def Let_def)
        then show ?thesis by (simp add: after_search_def)
      next
        case True
        then have r: "r = lower str"
          and b': "self_board self' = snd (play_move ops ?b m color)"
          using g a col t h o out b1 Some Inr by (auto simp: genmove_cmd_def Let_def)
        have c1: "code ops (self_board self') \<noteq> code ops ?b"
          using cc v True b' unfolding legal_play_changes_code_def by simp
        have c2: "color = current_player ops ?b \<longrightarrow>
            current_player ops (self_board self') \<noteq> current_player ops ?b"
          using pt v True b' unfolding legal_play_passes_turn_def by auto
        have "color_to_int (lower (hd args)) = Inr color" using a col by simp
        then show ?thesis using True Inr r b' c1 c2 by blast
      qed
    qed
  qed
qed

theorem genmove_plays_the_move_witness:
  "board_ok row_ops row_valid row_rank \<and> row_valid (self_board (row_conn 3))
   \<and> legal_play_changes_code row_ops row_valid \<and> legal_play_passes_turn row_ops row_valid
   \<and> (\<exists>self'. genmove_cmd row_ops 4 (row_conn 3) [''b''] = Some (Responded ''a0'' self')
         \<and> self_board self' = snd (play_move row_ops (self_board (row_conn 3)) 1 BLACK)
         \<and> code row_ops (self_board self') \<noteq> code row_ops (self_board (row_conn 3))
         \<and> current_player row_ops (self_board self')
             \<noteq> current_player row_ops (self_board (row_conn 3)))"
proof -
  have v: "row_valid (self_board (row_conn 3))"
    by (simp add: row_conn_tables row_empty_valid)
  obtain self' where g: "genmove_cmd row_ops 4 (row_conn 3) [''b''] = Some (Responded ''a0'' self')"
    and b: "self_board self' = \<lparr>cells = [EMPTY, BLACK, EMPTY], to_play = WHITE\<rparr>"
    using row3_genmove by blast
  have p: "snd (play_move row_ops (self_board (row_conn 3)) 1 BLACK)
      = \<lparr>cells = [EMPTY, BLACK, EMPTY], to_play = WHITE\<rparr>"
    by (simp add: row_conn_tables row_defs numeral_nat)
  have cp: "current_player row_ops (self_board (row_conn 3)) = BLACK"
    by (simp add: row_conn_tables row_defs)
  have col: "color_to_int (lower (hd [''b''])) = Inr BLACK"
    by (simp add: color_to_int_def lower_def)
  from genmove_plays_the_move [OF row_board_ok v row_legal_play_changes_code
      row_legal_play_passes_turn g]
  have "code row_ops (self_board self') \<noteq> code row_ops (self_board (row_conn 3))
      \<and> current_player row_ops (self_board self')
          \<noteq> current_player row_ops (self_board (row_conn 3))"
    using col cp by auto
  then show ?thesis
    using row_board_ok v row_legal_play_changes_code row_legal_play_passes_turn g b p by auto
qed

end
